theory Spec2Isabelle
  imports Complex_Main
begin

section \<open>Numbers\<close>

text \<open>
  The engine computes with JavaScript numbers, which are IEEE 754 doubles. The state
  machine and the scheduler are modelled over the real numbers those doubles stand for,
  without rounding. The two numeric functions whose rounding decides a statement,
  \<open>interpolateCurve\<close> and \<open>mapToFrequency\<close>, are given a second time with every
  arithmetic operation rounded to the nearest double (\<open>interpolateCurve_rounded\<close>,
  \<open>mapToFrequency_rounded\<close>).

  The two quotients of the source whose divisor can be zero are modelled with the result
  JavaScript gives there (an infinity or NaN), since HOL's \<open>x / 0 = 0\<close> is not what
  the program computes. A zero divisor is taken as \<open>+0\<close> (the difference of two equal
  clock readings, or a stored duration of \<open>0\<close>).
\<close>

datatype jsnum = Finite real | PosInfinity | NegInfinity | NaN

definition js_div :: "real \<Rightarrow> real \<Rightarrow> jsnum" where
  "js_div a b =
     (if b \<noteq> 0 then Finite (a / b)
      else if a > 0 then PosInfinity
      else if a < 0 then NegInfinity
      else NaN)"

text \<open>\<open>x > y\<close> and \<open>x < y\<close> for a finite right-hand side; NaN compares false.\<close>

fun js_gt :: "jsnum \<Rightarrow> real \<Rightarrow> bool" where
  "js_gt (Finite x) y = (x > y)"
| "js_gt PosInfinity y = True"
| "js_gt NegInfinity y = False"
| "js_gt NaN y = False"

fun js_lt :: "jsnum \<Rightarrow> real \<Rightarrow> bool" where
  "js_lt (Finite x) y = (x < y)"
| "js_lt PosInfinity y = False"
| "js_lt NegInfinity y = True"
| "js_lt NaN y = False"

text \<open>\<open>Math.min(1, x)\<close>.\<close>

fun js_min1 :: "jsnum \<Rightarrow> jsnum" where
  "js_min1 (Finite x) = Finite (min 1 x)"
| "js_min1 PosInfinity = Finite 1"
| "js_min1 NegInfinity = NegInfinity"
| "js_min1 NaN = NaN"

subsection \<open>Rounding to the nearest double\<close>

text \<open>
  A finite double is an integer multiple of \<open>2 powi (e - 52)\<close>, where \<open>e\<close> is the
  exponent of its binade, \<open>2 powi e \<le> \<bar>x\<bar> < 2 powi (e + 1)\<close>, and at least
  \<open>-1022\<close> (below \<open>2 powi (-1022)\<close> the subnormal doubles keep the spacing
  \<open>2 powi (-1074)\<close>). An arithmetic operation returns the exact result rounded to the
  nearest such multiple, a tie going to the even one. Overflow to an infinity (a
  magnitude of \<open>2 powi 1024\<close> or more) is not modelled: the statements about rounded
  functions bound their inputs, so that no operation overflows.
\<close>

definition round_half_even :: "real \<Rightarrow> int" where
  "round_half_even y =
     (let f = \<lfloor>y\<rfloor>; r = y - of_int f
      in if r < 1/2 then f
         else if r > 1/2 then f + 1
         else if even f then f else f + 1)"

text \<open>
  The exponent of the binade of \<open>x\<close>; zero sits with the subnormal numbers. On a
  concrete number it is found from \<open>2 powi e \<le> \<bar>x\<bar> < 2 powi (e + 1)\<close> (lemma
  \<open>exponent_eqI\<close>).
\<close>

definition exponent :: "real \<Rightarrow> int" where
  "exponent x = (if x = 0 then - 1022 else max \<lfloor>log 2 \<bar>x\<bar>\<rfloor> (- 1022))"

text \<open>The spacing of the doubles in the binade of \<open>x\<close>.\<close>

definition ulp :: "real \<Rightarrow> real" where
  "ulp x = 2 powi (exponent x - 52)"

definition round_double :: "real \<Rightarrow> real" where
  "round_double x =
     (if x = 0 then 0
      else of_int (round_half_even (x / ulp x)) * ulp x)"

section \<open>Data model\<close>

text \<open>A control point \<open>{time, value}\<close> of a curve.\<close>

record point =
  time :: real
  val :: real

text \<open>A silence block \<open>{start, duration}\<close>.\<close>

record silence_block =
  start :: real
  block_duration :: real

text \<open>
  A sound profile. The nesting \<open>layers.baseFrequency.curve\<close>,
  \<open>layers.texture.densityMap\<close>, \<open>layers.modulation.{type, intensity}\<close> and
  \<open>layers.silence.blocks\<close> is flattened. A curve may be absent (\<open>null\<close> or
  \<open>undefined\<close>), which is \<open>None\<close>.
\<close>

record profile =
  profileId :: "string option"
  profileName :: string
  duration :: real
  curve :: "point list option"
  densityMap :: "point list option"
  modulationType :: string
  intensity :: real
  blocks :: "silence_block list"

text \<open>
  The module-scoped variables of the engine. A node variable is \<open>True\<close> when it holds
  a node and \<open>False\<close> when it is \<open>null\<close>; \<open>animationFrameId\<close> is \<open>True\<close> when a
  frame callback is scheduled. The three fields of \<open>proModeAdjustments\<close> are fields
  of the state.
\<close>

record engine =
  audioContext :: bool
  oscillator :: bool
  filterNode :: bool
  densityGain :: bool
  panner :: bool
  silenceGate :: bool
  masterGain :: bool
  isPlaying :: bool
  currentProfile :: "profile option"
  sessionStartTime :: real
  sessionDuration :: real
  animationFrameId :: bool
  proModeEnabled :: bool
  interactionCount :: nat
  frequencyOffset :: real
  textureOffset :: real
  modulationOffset :: real

definition initial :: engine where
  "initial =
     \<lparr>audioContext = False, oscillator = False, filterNode = False, densityGain = False,
      panner = False, silenceGate = False, masterGain = False, isPlaying = False,
      currentProfile = None, sessionStartTime = 0, sessionDuration = 0,
      animationFrameId = False, proModeEnabled = False, interactionCount = 0,
      frequencyOffset = 0, textureOffset = 0, modulationOffset = 0\<rparr>"

text \<open>The detail of the \<open>sessionComplete\<close> event.\<close>

record completion =
  detailProfileId :: "string option"
  detailProfileName :: "string option"
  detailDuration :: real
  detailProModeEnabled :: bool
  wasAdapted :: bool

text \<open>
  What the engine sends out: a target value and its time constant for each
  \<open>setTargetAtTime\<close> call, the frequency a new oscillator starts with, the console
  warning of \<open>play\<close>, and the completion event.
\<close>

datatype signal =
    OscillatorStart real
  | OscillatorFrequency real real
  | FilterFrequency real real
  | FilterQ real real
  | DensityGain real real
  | PannerPan real real
  | SilenceGateGain real real
  | SessionComplete completion
  | ConsoleWarn
  | NonFiniteProgress

section \<open>Constants and unit mappers\<close>

definition FREQ_MIN :: real where "FREQ_MIN = 80"
definition FREQ_MAX :: real where "FREQ_MAX = 400"
definition FILTER_FREQ_MIN :: real where "FILTER_FREQ_MIN = 200"
definition FILTER_FREQ_MAX :: real where "FILTER_FREQ_MAX = 2000"
definition FILTER_Q_MIN :: real where "FILTER_Q_MIN = 0.5"
definition FILTER_Q_MAX :: real where "FILTER_Q_MAX = 8"

record modulation_params =
  lfoFreq :: real
  lfoDepth :: real

definition stable :: modulation_params where
  "stable = \<lparr>lfoFreq = 0, lfoDepth = 0\<rparr>"

text \<open>
  The table \<open>MODULATION_TYPES\<close>, keyed by the type's name. A name that is not in the
  table takes the parameters of \<open>stable\<close> in \<open>applyModulation\<close>; a name that
  the lookup finds on the object's prototype has no \<open>lfoFreq\<close> and sends nothing
  either.
\<close>

definition MODULATION_TYPES :: "string \<Rightarrow> modulation_params option" where
  "MODULATION_TYPES =
     [''stable'' \<mapsto> stable,
      ''gentle'' \<mapsto> \<lparr>lfoFreq = 0.1, lfoDepth = 0.02\<rparr>,
      ''irregular'' \<mapsto> \<lparr>lfoFreq = 0.3, lfoDepth = 0.05\<rparr>]"

text \<open>\<open>Math.pow\<close> with a positive base is \<open>powr\<close>.\<close>

definition mapToFrequency :: "real \<Rightarrow> real" where
  "mapToFrequency v =
     (let normalizedValue = max 0 (min 1 v)
      in FREQ_MIN * (FREQ_MAX / FREQ_MIN) powr normalizedValue)"

text \<open>
  The same function on doubles. \<open>Math.pow\<close> is a function of the platform, whose
  accuracy the language leaves to the implementation; it is the parameter \<open>pow\<close>.
  The quotient \<open>FREQ_MAX / FREQ_MIN\<close> and the product are rounded; the clamp is exact.
  A platform whose \<open>Math.pow\<close> returns an infinity or NaN somewhere on \<open>[0, 1]\<close> is
  outside the parameter's range; there the mapper returns an infinity or NaN as well.
\<close>

definition mapToFrequency_rounded :: "(real \<Rightarrow> real \<Rightarrow> real) \<Rightarrow> real \<Rightarrow> real" where
  "mapToFrequency_rounded pow v =
     (let normalizedValue = max 0 (min 1 v)
      in round_double (FREQ_MIN * pow (round_double (FREQ_MAX / FREQ_MIN)) normalizedValue))"

text \<open>
  One platform: a \<open>Math.pow\<close> that returns the exact power rounded to the nearest
  double.
\<close>

definition pow_correctly_rounded :: "real \<Rightarrow> real \<Rightarrow> real" where
  "pow_correctly_rounded x y = round_double (x powr y)"

definition applyTexture :: "real \<Rightarrow> engine \<Rightarrow> signal list" where
  "applyTexture v s =
     (if \<not> filterNode s then []
      else
        let normalizedValue = max 0 (min 1 v);
            filterFreq = FILTER_FREQ_MAX - normalizedValue * (FILTER_FREQ_MAX - FILTER_FREQ_MIN);
            filterQ = FILTER_Q_MIN + normalizedValue * (FILTER_Q_MAX - FILTER_Q_MIN);
            density = 0.7 + normalizedValue * 0.3
        in [FilterFrequency filterFreq 0.1, FilterQ filterQ 0.1, DensityGain density 0.1])"

section \<open>Curve interpolation\<close>

text \<open>
  The search loop of \<open>interpolateCurve\<close>: the first index \<open>i\<close> with
  \<open>curve[i].time \<le> progress \<le> curve[i + 1].time\<close> gives the bracket; the loop
  ends without one when no adjacent pair matches.
\<close>

fun findBracket :: "point list \<Rightarrow> real \<Rightarrow> (point \<times> point) option" where
  "findBracket (a # b # rest) progress =
     (if time a \<le> progress \<and> time b \<ge> progress then Some (a, b)
      else findBracket (b # rest) progress)"
| "findBracket [a] progress = None"
| "findBracket [] progress = None"

definition interpolateCurve :: "point list option \<Rightarrow> real \<Rightarrow> real" where
  "interpolateCurve crv progress =
     (case crv of
        None \<Rightarrow> 0.5
      | Some c \<Rightarrow>
          if length c = 0 then 0.5
          else if length c = 1 then val (c ! 0)
          else
            let (lower, upper) =
                  (case findBracket c progress of
                     Some b \<Rightarrow> b
                   | None \<Rightarrow> (c ! 0, c ! (length c - 1)));
                rng = time upper - time lower
            in if rng = 0 then val lower
               else
                 let t = (progress - time lower) / rng
                 in val lower + (val upper - val lower) * t)"

text \<open>
  The same function on doubles: each subtraction, the division, the multiplication and
  the addition is rounded; the comparisons are exact.
\<close>

definition interpolateCurve_rounded :: "point list option \<Rightarrow> real \<Rightarrow> real" where
  "interpolateCurve_rounded crv progress =
     (case crv of
        None \<Rightarrow> 0.5
      | Some c \<Rightarrow>
          if length c = 0 then 0.5
          else if length c = 1 then val (c ! 0)
          else
            let (lower, upper) =
                  (case findBracket c progress of
                     Some b \<Rightarrow> b
                   | None \<Rightarrow> (c ! 0, c ! (length c - 1)));
                rng = round_double (time upper - time lower)
            in if rng = 0 then val lower
               else
                 let t = round_double (round_double (progress - time lower) / rng)
                 in round_double
                      (val lower + round_double (round_double (val upper - val lower) * t)))"

section \<open>Session clock\<close>

text \<open>
  \<open>audioContext.currentTime\<close> is read from the environment; every function that
  reads it takes the reading as its argument \<open>now\<close>.
\<close>

record progress_info =
  elapsed :: real
  remaining :: real
  progress :: jsnum

definition getProgress :: "real \<Rightarrow> engine \<Rightarrow> progress_info" where
  "getProgress now s =
     (if \<not> isPlaying s \<or> \<not> audioContext s
      then \<lparr>elapsed = 0, remaining = sessionDuration s, progress = Finite 0\<rparr>
      else
        let e = now - sessionStartTime s
        in \<lparr>elapsed = e,
            remaining = max 0 (sessionDuration s - e),
            progress = js_min1 (js_div e (sessionDuration s))\<rparr>)"

section \<open>Parameter scheduler\<close>

definition applyModulation :: "real \<Rightarrow> real \<Rightarrow> engine \<Rightarrow> signal list" where
  "applyModulation now p s =
     (case currentProfile s of
        None \<Rightarrow> []
      | Some prof \<Rightarrow>
          if \<not> oscillator s then []
          else
            let params = (case MODULATION_TYPES (modulationType prof) of
                            Some m \<Rightarrow> m
                          | None \<Rightarrow> stable);
                intens = intensity prof + modulationOffset s
            in if lfoFreq params > 0 then
                 let lfoValue = sin (now * lfoFreq params * 2 * pi);
                     modAmount = lfoValue * lfoDepth params * intens * 20;
                     baseFreqValue = interpolateCurve (curve prof) p;
                     baseFreq = mapToFrequency baseFreqValue
                 in [OscillatorFrequency (baseFreq + modAmount) 0.05]
               else [])"

text \<open>The loop over the silence blocks, which stops at the first block that matches.\<close>

fun isSilent :: "real \<Rightarrow> silence_block list \<Rightarrow> bool" where
  "isSilent currentTimeSeconds [] = False"
| "isSilent currentTimeSeconds (block # rest) =
     (if currentTimeSeconds \<ge> start block
         \<and> currentTimeSeconds < start block + block_duration block
      then True
      else isSilent currentTimeSeconds rest)"

definition applySilenceBlocks :: "real \<Rightarrow> engine \<Rightarrow> signal list" where
  "applySilenceBlocks p s =
     (case currentProfile s of
        None \<Rightarrow> []
      | Some prof \<Rightarrow>
          if \<not> silenceGate s then []
          else
            let currentTimeSeconds = p * sessionDuration s;
                targetGain = (if isSilent currentTimeSeconds (blocks prof) then 0 else 1)
            in [SilenceGateGain targetGain 0.05])"

definition applySubtlePanning :: "real \<Rightarrow> engine \<Rightarrow> signal list" where
  "applySubtlePanning now s =
     (if \<not> panner s then []
      else [PannerPan (sin (now * 0.05) * 0.1) 0.1])"

section \<open>Session lifecycle\<close>

definition loadProfile :: "profile \<Rightarrow> engine \<Rightarrow> engine" where
  "loadProfile prof s =
     s\<lparr>currentProfile := Some prof, sessionDuration := duration prof,
       frequencyOffset := 0, textureOffset := 0, modulationOffset := 0,
       interactionCount := 0\<rparr>"

definition pause :: "engine \<Rightarrow> engine" where
  "pause s =
     (if \<not> isPlaying s then s
      else s\<lparr>isPlaying := False, oscillator := False, animationFrameId := False\<rparr>)"

definition stop :: "engine \<Rightarrow> engine" where
  "stop s = (pause s)\<lparr>sessionStartTime := 0\<rparr>"

definition onSessionComplete :: "engine \<Rightarrow> engine \<times> signal list" where
  "onSessionComplete s =
     (let s' = stop s
      in (s',
          [SessionComplete
             \<lparr>detailProfileId = Option.bind (currentProfile s') profileId,
              detailProfileName = map_option profileName (currentProfile s'),
              detailDuration = sessionDuration s',
              detailProModeEnabled = proModeEnabled s',
              wasAdapted =
                (proModeEnabled s'
                 \<and> (frequencyOffset s' \<noteq> 0
                      \<or> textureOffset s' \<noteq> 0
                      \<or> modulationOffset s' \<noteq> 0))\<rparr>]))"

text \<open>
  The frame callback. Its progress is finite whenever it gets past the completion check
  with a clock reading that is not before the session start: then
  \<open>sessionDuration > elapsed \<ge> 0\<close>. A reading before the session start with a
  stored duration of \<open>0\<close> gives the progress \<open>-Infinity\<close>; the targets of such a
  frame are not real numbers and are recorded as \<open>NonFiniteProgress\<close>.
\<close>

definition updateAudioParameters :: "real \<Rightarrow> engine \<Rightarrow> engine \<times> signal list" where
  "updateAudioParameters now s =
     (case currentProfile s of
        None \<Rightarrow> (s, [])
      | Some prof \<Rightarrow>
          if \<not> isPlaying s then (s, [])
          else
            let g = getProgress now s
            in if remaining g \<le> 0 then onSessionComplete s
               else
                 (case progress g of
                    Finite p \<Rightarrow>
                      let baseFreqValue = interpolateCurve (curve prof) p;
                          adjustedFreq = baseFreqValue + frequencyOffset s;
                          textureValue = interpolateCurve (densityMap prof) p
                      in (s\<lparr>animationFrameId := True\<rparr>,
                          (if oscillator s
                           then [OscillatorFrequency (mapToFrequency adjustedFreq) 0.1]
                           else [])
                          @ applyTexture (textureValue + textureOffset s) s
                          @ applyModulation now p s
                          @ applySilenceBlocks p s
                          @ applySubtlePanning now s)
                  | _ \<Rightarrow> (s, [NonFiniteProgress])))"

text \<open>
  Whether the audio backend can be acquired when \<open>init\<close> runs without a context:
  the constructor may throw, or the context may be created suspended and refuse to resume.
\<close>

datatype backend = Available | ConstructFails | ResumeFails

definition createAudioGraph :: "engine \<Rightarrow> engine" where
  "createAudioGraph s =
     s\<lparr>masterGain := True, silenceGate := True, panner := True,
       densityGain := True, filterNode := True\<rparr>"

text \<open>\<open>init\<close> returns the state and whether its promise resolved.\<close>

definition init :: "backend \<Rightarrow> engine \<Rightarrow> engine \<times> bool" where
  "init b s =
     (if audioContext s then (s, True)
      else
        (case b of
           ConstructFails \<Rightarrow> (s, False)
         | ResumeFails \<Rightarrow> (createAudioGraph (s\<lparr>audioContext := True\<rparr>), False)
         | Available \<Rightarrow> (createAudioGraph (s\<lparr>audioContext := True\<rparr>), True)))"

definition startOscillator :: "engine \<Rightarrow> engine \<times> signal list" where
  "startOscillator s = (s\<lparr>oscillator := True\<rparr>, [OscillatorStart (mapToFrequency 0.5)])"

text \<open>
  \<open>play\<close> is asynchronous in the source; it is modelled as one step, so no other
  operation runs between its checks and its assignments.
\<close>

definition play :: "backend \<Rightarrow> real \<Rightarrow> engine \<Rightarrow> engine \<times> signal list" where
  "play b now s =
     (if isPlaying s then (s, [])
      else if currentProfile s = None then (s, [ConsoleWarn])
      else
        let (s1, resolved) = init b s
        in if \<not> resolved then (s1, [])
           else
             let (s2, out) = startOscillator s1;
                 s3 = s2\<lparr>isPlaying := True, sessionStartTime := now\<rparr>;
                 (s4, out') = updateAudioParameters now s3
             in (s4, out @ out'))"

definition dispose :: "engine \<Rightarrow> engine" where
  "dispose s =
     (stop s)\<lparr>audioContext := False, oscillator := False, filterNode := False,
              densityGain := False, panner := False, silenceGate := False,
              masterGain := False\<rparr>"

section \<open>Adaptive controller\<close>

definition setProMode :: "bool \<Rightarrow> engine \<Rightarrow> engine" where
  "setProMode enabled s =
     (let s' = s\<lparr>proModeEnabled := enabled\<rparr>
      in if \<not> enabled
         then s'\<lparr>frequencyOffset := 0, textureOffset := 0, modulationOffset := 0\<rparr>
         else s')"

definition recordInteraction :: "real \<Rightarrow> engine \<Rightarrow> engine" where
  "recordInteraction now s =
     (if \<not> proModeEnabled s \<or> \<not> isPlaying s then s
      else
        let s' = s\<lparr>interactionCount := interactionCount s + 1\<rparr>;
            e = elapsed (getProgress now s');
            interactionsPerMinute = js_div (real (interactionCount s')) (e / 60)
        in if js_gt interactionsPerMinute 2 then
             s'\<lparr>frequencyOffset := max (- 0.1) (frequencyOffset s' - 0.01),
                textureOffset := max (- 0.1) (textureOffset s' - 0.01)\<rparr>
           else if e > 300 \<and> js_lt interactionsPerMinute 0.5 then
             s'\<lparr>modulationOffset := min 0.1 (modulationOffset s' + 0.005)\<rparr>
           else s')"

section \<open>Sequences of operations\<close>

text \<open>
  The operations of the public interface, and the frame callback that the rendering
  loop fires. \<open>previewLayer\<close> (which may create the context and an oscillator and
  sends single targets), \<open>setMasterVolume\<close> and the getters are left out: none of them
  writes the profile, the playing flag, the Pro Mode flag, the count or an offset.
\<close>

datatype operation =
    Init backend
  | LoadProfile profile
  | Play backend real
  | Pause
  | Stop
  | SetProMode bool
  | RecordInteraction real
  | Frame real
  | Dispose

fun step :: "operation \<Rightarrow> engine \<Rightarrow> engine \<times> signal list" where
  "step (Init b) s = (fst (init b s), [])"
| "step (LoadProfile prof) s = (loadProfile prof s, [])"
| "step (Play b now) s = play b now s"
| "step Pause s = (pause s, [])"
| "step Stop s = (stop s, [])"
| "step (SetProMode enabled) s = (setProMode enabled s, [])"
| "step (RecordInteraction now) s = (recordInteraction now s, [])"
| "step (Frame now) s = updateAudioParameters now s"
| "step Dispose s = (dispose s, [])"

fun run :: "operation list \<Rightarrow> engine \<Rightarrow> engine \<times> signal list" where
  "run [] s = (s, [])"
| "run (x # xs) s =
     (let (s', out) = step x s;
          (s'', out') = run xs s'
      in (s'', out @ out'))"

section \<open>Invariant of the adaptive state, and example sessions\<close>

text \<open>The part of the state that the adaptive controller owns, apart from the count.\<close>

definition adaptive :: "engine \<Rightarrow> real \<times> real \<times> real \<times> bool" where
  "adaptive s = (frequencyOffset s, textureOffset s, modulationOffset s, proModeEnabled s)"

text \<open>
  The invariant: the frequency and texture offsets lie in \<open>[-0.1, 0]\<close>, the
  modulation offset in \<open>[0, 0.1]\<close>, and all three are zero while Pro Mode is off.
\<close>

definition adaptive_ok :: "engine \<Rightarrow> bool" where
  "adaptive_ok s =
     (- 0.1 \<le> frequencyOffset s \<and> frequencyOffset s \<le> 0
      \<and> - 0.1 \<le> textureOffset s \<and> textureOffset s \<le> 0
      \<and> 0 \<le> modulationOffset s \<and> modulationOffset s \<le> 0.1
      \<and> (proModeEnabled s \<or> (frequencyOffset s = 0 \<and> textureOffset s = 0 \<and> modulationOffset s = 0)))"

text \<open>
  A profile with gentle modulation, and a session on it in which Pro Mode is on and one
  interaction is recorded one second after the start (a rate of 60 per minute).
\<close>

definition gentleProfile :: profile where
  "gentleProfile =
     \<lparr>profileId = Some ''focus'', profileName = ''focus'', duration = 100,
      curve = Some [\<lparr>time = 0, val = 0.5\<rparr>],
      densityMap = Some [\<lparr>time = 0, val = 0.3\<rparr>],
      modulationType = ''gentle'', intensity = 0.5, blocks = []\<rparr>"

definition distractedSession :: "operation list" where
  "distractedSession =
     [LoadProfile gentleProfile, SetProMode True, Play Available 0, RecordInteraction 1]"

definition distractedState :: engine where
  "distractedState =
     \<lparr>audioContext = True, oscillator = True, filterNode = True, densityGain = True,
      panner = True, silenceGate = True, masterGain = True, isPlaying = True,
      currentProfile = Some gentleProfile, sessionStartTime = 0, sessionDuration = 100,
      animationFrameId = True, proModeEnabled = True, interactionCount = 1,
      frequencyOffset = - 0.01, textureOffset = - 0.01, modulationOffset = 0\<rparr>"

text \<open>
  The invariant of the session: a playing session has a context, an oscillator and a
  profile, and a context comes with its graph.
\<close>

definition session_ok :: "engine \<Rightarrow> bool" where
  "session_ok s =
     ((\<not> isPlaying s \<or> (audioContext s \<and> oscillator s \<and> currentProfile s \<noteq> None))
      \<and> (\<not> audioContext s
          \<or> (filterNode s \<and> densityGain s \<and> panner s \<and> silenceGate s \<and> masterGain s)))"

text \<open>An unsorted curve with a repeated time, of values that are doubles.\<close>

definition zigzag :: "point list" where
  "zigzag = [\<lparr>time = 1/2, val = 1/4\<rparr>, \<lparr>time = 0, val = 3/4\<rparr>,
             \<lparr>time = 0, val = 1/2\<rparr>, \<lparr>time = 1, val = 5/8\<rparr>]"

text \<open>The gentle profile with two overlapping silence blocks.\<close>

definition overlapProfile :: profile where
  "overlapProfile =
     gentleProfile\<lparr>blocks := [\<lparr>start = 10, block_duration = 5\<rparr>, \<lparr>start = 12, block_duration = 5\<rparr>]\<rparr>"

text \<open>
  The curve \<open>[{time: 0, value: 0.03}, {time: 1, value: 0.29}]\<close>: a decimal literal
  denotes the nearest double.
\<close>

definition decimalCurve :: "point list" where
  "decimalCurve = [\<lparr>time = 0, val = round_double 0.03\<rparr>, \<lparr>time = 1, val = round_double 0.29\<rparr>]"

text \<open>
  The doubles of one binade in increasing order: \<open>binade_point k j\<close> for
  \<open>j = 0, \<dots>, 2 ^ 52\<close> runs from \<open>2 powi (k + 52)\<close> to \<open>2 powi (k + 53)\<close> in
  steps of \<open>2 powi k\<close>.
\<close>

definition binade_point :: "int \<Rightarrow> nat \<Rightarrow> real" where
  "binade_point k j = of_int (2 ^ 52 + int j) * 2 powi k"

section \<open>Theorems\<close>

subsection \<open>Rounding to the nearest double\<close>

lemma round_half_even_of_int [simp]: "round_half_even (of_int n) = n"
  by (simp add: round_half_even_def)

lemma round_half_even_cases:
  "round_half_even y = \<lfloor>y\<rfloor> \<or> round_half_even y = \<lfloor>y\<rfloor> + 1"
  by (simp add: round_half_even_def Let_def)

lemma round_half_even_error: "\<bar>of_int (round_half_even y) - y\<bar> \<le> 1/2"
proof -
  have "of_int \<lfloor>y\<rfloor> \<le> y" "y < of_int \<lfloor>y\<rfloor> + 1" by linarith+
  then show ?thesis
    by (auto simp add: round_half_even_def Let_def abs_le_iff)
qed

lemma round_half_even_mono:
  assumes "x \<le> y"
  shows "round_half_even x \<le> round_half_even y"
proof (cases "\<lfloor>x\<rfloor> = \<lfloor>y\<rfloor>")
  case True
  with assms show ?thesis
    by (auto simp add: round_half_even_def Let_def)
next
  case False
  with assms have "\<lfloor>x\<rfloor> + 1 \<le> \<lfloor>y\<rfloor>"
    using floor_mono [OF assms] by linarith
  moreover have "round_half_even x \<le> \<lfloor>x\<rfloor> + 1"
    using round_half_even_cases [of x] by linarith
  moreover have "\<lfloor>y\<rfloor> \<le> round_half_even y"
    using round_half_even_cases [of y] by linarith
  ultimately show ?thesis by linarith
qed

lemma round_half_even_minus: "round_half_even (- y) = - round_half_even y"
proof (cases "y \<in> \<int>")
  case True
  then obtain n where "y = of_int n" by (auto elim: Ints_cases)
  then have "- y = of_int (- n)" by simp
  then show ?thesis using \<open>y = of_int n\<close> by (metis round_half_even_of_int)
next
  case False
  have ne: "y \<noteq> of_int \<lfloor>y\<rfloor>" using False by (metis Ints_of_int)
  then have f: "\<lfloor>- y\<rfloor> = - \<lfloor>y\<rfloor> - 1"
    by (simp add: floor_minus ceiling_altdef)
  note ne
  moreover have "of_int \<lfloor>y\<rfloor> \<le> y" "y < of_int \<lfloor>y\<rfloor> + 1" by linarith+
  ultimately show ?thesis
    unfolding round_half_even_def Let_def f
    by (auto simp add: algebra_simps)
qed

lemma floor_log2_iff:
  assumes "0 < x"
  shows "\<lfloor>log 2 x\<rfloor> = k \<longleftrightarrow> 2 powi k \<le> x \<and> x < 2 powi (k + 1)"
  using floor_log_eq_powr_iff [of x 2 k] powr_real_of_int' [of 2 k] powr_real_of_int' [of 2 "k + 1"]
    assms by simp

lemma power_int_2_less_imp: "(2::real) powi a < 2 powi b \<Longrightarrow> a < b"
proof (rule ccontr)
  assume "2 powi a < (2::real) powi b" and "\<not> a < b"
  then have "(2::real) powi b \<le> 2 powi a"
    by (intro power_int_increasing) simp_all
  with \<open>2 powi a < (2::real) powi b\<close> show False by linarith
qed

lemma exponent_minus [simp]: "exponent (- x) = exponent x"
  by (simp add: exponent_def)

lemma exponent_ge: "- 1022 \<le> exponent x"
  by (simp add: exponent_def)

lemma exponent_eqI:
  assumes "2 powi e \<le> \<bar>x\<bar>" and "\<bar>x\<bar> < 2 powi (e + 1)" and "- 1022 \<le> e"
  shows "exponent x = e"
proof -
  have "(0::real) < 2 powi e" by simp
  with assms(1) have pos: "0 < \<bar>x\<bar>" by linarith
  have "\<lfloor>log 2 \<bar>x\<bar>\<rfloor> = e"
    using assms(1,2) pos by (simp add: floor_log2_iff)
  with assms(3) pos show ?thesis by (simp add: exponent_def)
qed

lemma exponent_normal:
  assumes "2 powi (- 1022) \<le> \<bar>x\<bar>"
  shows "2 powi (exponent x) \<le> \<bar>x\<bar> \<and> \<bar>x\<bar> < 2 powi (exponent x + 1)"
proof -
  have "(0::real) < 2 powi (- 1022)" by simp
  with assms have pos: "0 < \<bar>x\<bar>" by linarith
  let ?k = "\<lfloor>log 2 \<bar>x\<bar>\<rfloor>"
  have k: "2 powi ?k \<le> \<bar>x\<bar> \<and> \<bar>x\<bar> < 2 powi (?k + 1)"
    using floor_log2_iff [OF pos, of ?k] by simp
  have "- 1022 \<le> ?k"
  proof (rule ccontr)
    assume "\<not> - 1022 \<le> ?k"
    then have "?k + 1 \<le> - 1022" by linarith
    then have "(2::real) powi (?k + 1) \<le> 2 powi (- 1022)"
      by (intro power_int_increasing) simp_all
    with k assms show False by linarith
  qed
  then have "exponent x = ?k" using pos by (simp add: exponent_def)
  with k show ?thesis by simp
qed

lemma exponent_subnormal:
  assumes "\<bar>x\<bar> < 2 powi (- 1022)"
  shows "exponent x = - 1022"
proof (cases "x = 0")
  case True
  then show ?thesis by (simp add: exponent_def)
next
  case False
  then have pos: "0 < \<bar>x\<bar>" by simp
  let ?k = "\<lfloor>log 2 \<bar>x\<bar>\<rfloor>"
  have k: "2 powi ?k \<le> \<bar>x\<bar>"
    using floor_log2_iff [OF pos, of ?k] by simp
  have "?k \<le> - 1022"
  proof (rule ccontr)
    assume "\<not> ?k \<le> - 1022"
    then have "- 1022 \<le> ?k" by linarith
    then have "(2::real) powi (- 1022) \<le> 2 powi ?k"
      by (intro power_int_increasing) simp_all
    with k assms show False by linarith
  qed
  then show ?thesis using False by (simp add: exponent_def)
qed

lemma exponent_upper: "\<bar>x\<bar> < 2 powi (exponent x + 1)"
proof (cases "2 powi (- 1022) \<le> \<bar>x\<bar>")
  case True
  then show ?thesis using exponent_normal by blast
next
  case False
  then have "exponent x = - 1022" using exponent_subnormal by simp
  moreover have "(2::real) powi (- 1022) \<le> 2 powi (- 1022 + 1)"
    by (intro power_int_increasing) simp_all
  ultimately show ?thesis using False by simp
qed

lemma exponent_mono:
  assumes "\<bar>x\<bar> \<le> \<bar>y\<bar>"
  shows "exponent x \<le> exponent y"
proof (cases "2 powi (- 1022) \<le> \<bar>x\<bar>")
  case True
  with assms have y: "2 powi (- 1022) \<le> \<bar>y\<bar>" by linarith
  have "2 powi (exponent x) \<le> \<bar>x\<bar>" using exponent_normal [OF True] by simp
  also have "\<dots> \<le> \<bar>y\<bar>" by (rule assms)
  also have "\<dots> < 2 powi (exponent y + 1)" by (rule exponent_upper)
  finally have "(2::real) powi (exponent x) < 2 powi (exponent y + 1)" .
  then have "exponent x < exponent y + 1"
    by (rule power_int_2_less_imp)
  then show ?thesis by simp
next
  case False
  then have "exponent x = - 1022" using exponent_subnormal by simp
  then show ?thesis using exponent_ge [of y] by simp
qed

lemma ulp_pos [simp]: "0 < ulp x"
  by (simp add: ulp_def)

lemma ulp_neq_0 [simp]: "ulp x \<noteq> 0"
  by (simp add: ulp_def)

lemma ulp_nonneg [simp]: "0 \<le> ulp x"
  by (simp add: ulp_def)

lemma round_half_even_0 [simp]: "round_half_even 0 = 0"
  using round_half_even_of_int [of 0] by simp

lemma ulp_minus [simp]: "ulp (- x) = ulp x"
  by (simp add: ulp_def)

lemma round_double_0 [simp]: "round_double 0 = 0"
  by (simp add: round_double_def)

lemma round_double_eq: "round_double x = of_int (round_half_even (x / ulp x)) * ulp x"
  by (simp add: round_double_def)

lemma round_double_minus: "round_double (- x) = - round_double x"
  by (simp add: round_double_eq round_half_even_minus)

lemma round_double_error: "\<bar>round_double x - x\<bar> \<le> ulp x / 2"
proof -
  have "\<bar>of_int (round_half_even (x / ulp x)) - x / ulp x\<bar> * ulp x \<le> 1/2 * ulp x"
    by (intro mult_right_mono round_half_even_error) simp
  moreover have "\<bar>of_int (round_half_even (x / ulp x)) - x / ulp x\<bar> * ulp x
                 = \<bar>round_double x - x\<bar>"
  proof -
    have "\<bar>of_int (round_half_even (x / ulp x)) - x / ulp x\<bar> * \<bar>ulp x\<bar>
          = \<bar>(of_int (round_half_even (x / ulp x)) - x / ulp x) * ulp x\<bar>"
      by (simp only: abs_mult)
    also have "(of_int (round_half_even (x / ulp x)) - x / ulp x) * ulp x = round_double x - x"
      by (simp add: round_double_eq algebra_simps)
    finally show ?thesis by simp
  qed
  ultimately show ?thesis by simp
qed

lemma round_double_le_grid:
  assumes "x \<le> of_int n * ulp x"
  shows "round_double x \<le> of_int n * ulp x"
proof -
  from assms have "x / ulp x \<le> of_int n" by (simp add: pos_divide_le_eq)
  then have "round_half_even (x / ulp x) \<le> n"
    using round_half_even_mono [of "x / ulp x" "of_int n"] by simp
  then have "of_int (round_half_even (x / ulp x)) * ulp x \<le> of_int n * ulp x"
    by (intro mult_right_mono) simp_all
  then show ?thesis by (simp add: round_double_eq)
qed

lemma round_double_ge_grid:
  assumes "of_int n * ulp x \<le> x"
  shows "of_int n * ulp x \<le> round_double x"
proof -
  from assms have "of_int n \<le> x / ulp x" by (simp add: pos_le_divide_eq)
  then have "n \<le> round_half_even (x / ulp x)"
    using round_half_even_mono [of "of_int n" "x / ulp x"] by simp
  then have "of_int n * ulp x \<le> of_int (round_half_even (x / ulp x)) * ulp x"
    by (intro mult_right_mono) simp_all
  then show ?thesis by (simp add: round_double_eq)
qed

lemma round_double_nonneg: "0 \<le> x \<Longrightarrow> 0 \<le> round_double x"
  using round_double_ge_grid [of 0 x] by simp

lemma round_double_nonpos: "x \<le> 0 \<Longrightarrow> round_double x \<le> 0"
  using round_double_le_grid [of x 0] by simp

lemma two_powi_53_ulp: "of_int (2 ^ 53) * ulp x = 2 powi (exponent x + 1)"
proof -
  have "exponent x + 1 = 53 + (exponent x - 52)" by simp
  then have "(2::real) powi (exponent x + 1) = 2 powi (53 + (exponent x - 52))"
    by (rule arg_cong)
  also have "\<dots> = 2 powi 53 * 2 powi (exponent x - 52)"
    by (subst power_int_add) simp_all
  finally show ?thesis by (simp add: ulp_def)
qed

lemma two_powi_52_ulp: "of_int (2 ^ 52) * ulp x = 2 powi (exponent x)"
proof -
  have "exponent x = 52 + (exponent x - 52)" by simp
  then have "(2::real) powi (exponent x) = 2 powi (52 + (exponent x - 52))"
    by (rule arg_cong)
  also have "\<dots> = 2 powi 52 * 2 powi (exponent x - 52)"
    by (subst power_int_add) simp_all
  finally show ?thesis by (simp add: ulp_def)
qed

lemma round_double_le_binade: "round_double x \<le> 2 powi (exponent x + 1)"
proof -
  have "x \<le> \<bar>x\<bar>" by simp
  also have "\<dots> < 2 powi (exponent x + 1)" by (rule exponent_upper)
  finally have "x \<le> 2 powi (exponent x + 1)" by simp
  then have "x \<le> of_int (2 ^ 53) * ulp x" unfolding two_powi_53_ulp .
  then have "round_double x \<le> of_int (2 ^ 53) * ulp x" by (rule round_double_le_grid)
  then show ?thesis unfolding two_powi_53_ulp .
qed

lemma round_double_ge_binade:
  assumes "2 powi (exponent x) \<le> x"
  shows "2 powi (exponent x) \<le> round_double x"
proof -
  from assms have "of_int (2 ^ 52) * ulp x \<le> x" unfolding two_powi_52_ulp .
  then have "of_int (2 ^ 52) * ulp x \<le> round_double x" by (rule round_double_ge_grid)
  then show ?thesis unfolding two_powi_52_ulp .
qed

lemma round_double_mono_pos:
  assumes "0 < x" and "x \<le> y"
  shows "round_double x \<le> round_double y"
proof -
  from assms have xy: "\<bar>x\<bar> \<le> \<bar>y\<bar>" by simp
  then have e: "exponent x \<le> exponent y" by (rule exponent_mono)
  show ?thesis
  proof (cases "exponent x = exponent y")
    case True
    then have u: "ulp x = ulp y" by (simp add: ulp_def)
    from assms(2) have "x / ulp y \<le> y / ulp y" by (simp add: divide_right_mono)
    then have "round_half_even (x / ulp y) \<le> round_half_even (y / ulp y)"
      by (rule round_half_even_mono)
    then have "of_int (round_half_even (x / ulp y)) * ulp y
               \<le> of_int (round_half_even (y / ulp y)) * ulp y"
      by (intro mult_right_mono) simp_all
    then show ?thesis by (simp add: round_double_eq u)
  next
    case False
    with e have lt: "exponent x + 1 \<le> exponent y" by simp
    have "- 1022 < exponent y" using lt exponent_ge [of x] by linarith
    then have "\<not> \<bar>y\<bar> < 2 powi (- 1022)" using exponent_subnormal [of y] by auto
    then have "2 powi (exponent y) \<le> \<bar>y\<bar>" using exponent_normal [of y] by simp
    with assms have "2 powi (exponent y) \<le> y" by simp
    then have "2 powi (exponent y) \<le> round_double y" by (rule round_double_ge_binade)
    moreover have "round_double x \<le> 2 powi (exponent x + 1)" by (rule round_double_le_binade)
    moreover have "(2::real) powi (exponent x + 1) \<le> 2 powi (exponent y)"
      using lt by (intro power_int_increasing) simp_all
    ultimately show ?thesis by linarith
  qed
qed

lemma round_double_mono:
  assumes "x \<le> y"
  shows "round_double x \<le> round_double y"
proof -
  consider "0 < x" | "x \<le> 0" "0 \<le> y" | "y < 0" by linarith
  then show ?thesis
  proof cases
    case 1
    then show ?thesis using assms by (rule round_double_mono_pos)
  next
    case 2
    then show ?thesis using round_double_nonpos [of x] round_double_nonneg [of y] by linarith
  next
    case 3
    then have "0 < - y" "- y \<le> - x" using assms by simp_all
    then have "round_double (- y) \<le> round_double (- x)" by (rule round_double_mono_pos)
    then show ?thesis by (simp add: round_double_minus)
  qed
qed

lemma round_double_exact:
  assumes "x / ulp x \<in> \<int>"
  shows "round_double x = x"
proof -
  from assms obtain n where n: "x / ulp x = of_int n" by (auto elim: Ints_cases)
  then have "round_double x = of_int n * ulp x" by (simp add: round_double_eq)
  also have "\<dots> = x" using n by (simp add: field_simps)
  finally show ?thesis .
qed


lemma exponent_less:
  assumes "\<bar>x\<bar> < 2 powi k" and "- 1022 < k"
  shows "exponent x < k"
proof (cases "2 powi (- 1022) \<le> \<bar>x\<bar>")
  case True
  then have "2 powi (exponent x) \<le> \<bar>x\<bar>" using exponent_normal by blast
  with assms(1) have "(2::real) powi (exponent x) < 2 powi k" by linarith
  then show ?thesis by (rule power_int_2_less_imp)
next
  case False
  then have "exponent x = - 1022" using exponent_subnormal by simp
  with assms(2) show ?thesis by simp
qed

lemma round_double_error_below:
  assumes "\<bar>x\<bar> < 2 powi k" and "- 1022 < k"
  shows "\<bar>round_double x - x\<bar> \<le> 2 powi (k - 54)"
proof -
  have "exponent x - 52 \<le> k - 53" using exponent_less [OF assms] by simp
  then have "ulp x \<le> 2 powi (k - 53)"
    unfolding ulp_def by (intro power_int_increasing) simp_all
  moreover have "(2::real) powi (k - 53) = 2 * 2 powi (k - 54)"
  proof -
    have "k - 53 = 1 + (k - 54)" by simp
    then have "(2::real) powi (k - 53) = 2 powi (1 + (k - 54))" by (rule arg_cong)
    also have "\<dots> = 2 powi 1 * 2 powi (k - 54)" by (subst power_int_add) simp_all
    finally show ?thesis by simp
  qed
  ultimately have "ulp x / 2 \<le> 2 powi (k - 54)" by simp
  with round_double_error [of x] show ?thesis by linarith
qed

lemma round_double_dyadic:
  assumes "2 ^ 52 \<le> \<bar>m\<bar>" and "\<bar>m\<bar> < 2 ^ 53" and "- 1074 \<le> k"
  shows "round_double (of_int m * 2 powi k) = of_int m * 2 powi k"
proof -
  let ?x = "of_int m * 2 powi k :: real"
  have ax: "\<bar>?x\<bar> = of_int \<bar>m\<bar> * 2 powi k" by (simp add: abs_mult)
  have "(2::real) powi (k + 52) = 2 powi 52 * 2 powi k"
    by (subst power_int_add) (simp_all add: mult.commute)
  also have "\<dots> \<le> of_int \<bar>m\<bar> * 2 powi k"
    using assms(1) by (intro mult_right_mono) (simp_all add: of_int_le_iff [symmetric] del: of_int_le_iff)
  finally have lo: "2 powi (k + 52) \<le> \<bar>?x\<bar>" by (simp only: ax)
  have "of_int \<bar>m\<bar> * 2 powi k < (2::real) powi 53 * 2 powi k"
    using assms(2) by (intro mult_strict_right_mono) (simp_all add: of_int_less_iff [symmetric] del: of_int_less_iff)
  also have "\<dots> = 2 powi (k + 52 + 1)"
    by (subst power_int_add [symmetric]) (simp_all add: add.commute)
  finally have hi: "\<bar>?x\<bar> < 2 powi (k + 52 + 1)" by (simp only: ax)
  have "exponent ?x = k + 52"
    using lo hi assms(3) by (intro exponent_eqI) simp_all
  then have "ulp ?x = 2 powi k" by (simp add: ulp_def)
  then have "?x / ulp ?x = of_int m" by simp
  then have "?x / ulp ?x \<in> \<int>" by simp
  then show ?thesis by (rule round_double_exact)
qed

lemma round_double_pow2:
  assumes "- 1022 \<le> k"
  shows "round_double (2 powi k) = 2 powi k"
proof -
  have "(2::real) powi k = 2 powi (52 + (k - 52))" by simp
  also have "\<dots> = of_int (2 ^ 52) * 2 powi (k - 52)"
    by (subst power_int_add) simp_all
  finally have e: "(2::real) powi k = of_int (2 ^ 52) * 2 powi (k - 52)" .
  have "round_double (of_int (2 ^ 52) * 2 powi (k - 52)) = of_int (2 ^ 52) * 2 powi (k - 52)"
    using assms by (intro round_double_dyadic) simp_all
  then show ?thesis by (simp only: e [symmetric])
qed

lemma round_double_1 [simp]: "round_double 1 = 1"
  using round_double_pow2 [of 0] by simp

lemma round_double_5 [simp]: "round_double 5 = 5"
  using round_double_dyadic [of "5 * 2 ^ 50" "- 50"] by (simp add: power_int_minus)

lemma round_double_80 [simp]: "round_double 80 = 80"
  using round_double_dyadic [of "80 * 2 ^ 46" "- 46"] by (simp add: power_int_minus)

lemma round_double_400 [simp]: "round_double 400 = 400"
  using round_double_dyadic [of "400 * 2 ^ 44" "- 44"] by (simp add: power_int_minus)

lemma round_double_grid_above_80:
  assumes "80 \<le> round_double z"
  shows "\<exists>m::int. round_double z = of_int m * 2 powi (- 46)"
proof -
  have "(2::real) powi 6 < 80" by simp
  also have "80 \<le> round_double z" by (rule assms)
  also have "round_double z \<le> 2 powi (exponent z + 1)" by (rule round_double_le_binade)
  finally have "6 < exponent z + 1" by (rule power_int_2_less_imp)
  then have e: "0 \<le> exponent z - 6" by simp
  have "exponent z - 52 = (exponent z - 6) + (- 46)" by simp
  then have "ulp z = 2 powi ((exponent z - 6) + (- 46))" unfolding ulp_def by (rule arg_cong)
  also have "\<dots> = 2 powi (exponent z - 6) * 2 powi (- 46)"
    by (subst power_int_add) simp_all
  also have "(2::real) powi (exponent z - 6) = of_int (2 ^ nat (exponent z - 6))"
    using e by (simp add: power_int_nonneg_exp)
  finally have "round_double z
      = of_int (round_half_even (z / ulp z) * 2 ^ nat (exponent z - 6)) * 2 powi (- 46)"
    by (simp add: round_double_eq)
  then show ?thesis by blast
qed

lemma round_double_unit:
  assumes "0 \<le> x" and "x \<le> 1"
  shows "0 \<le> round_double x \<and> round_double x \<le> 1"
  using round_double_mono [OF assms(1)] round_double_mono [OF assms(2)] by simp

lemma round_double_error_unit:
  assumes "\<bar>x\<bar> \<le> 1"
  shows "\<bar>round_double x - x\<bar> \<le> 1 / 2 ^ 54"
proof (cases "\<bar>x\<bar> < 1")
  case True
  then have "\<bar>round_double x - x\<bar> \<le> 2 powi (0 - 54)"
    by (intro round_double_error_below) simp_all
  then show ?thesis by (simp add: power_int_minus_divide)
next
  case False
  with assms have "x = 1 \<or> x = - 1" by linarith
  then show ?thesis using round_double_minus [of 1] by auto
qed

lemma round_double_error_2:
  assumes "\<bar>x\<bar> < 2"
  shows "\<bar>round_double x - x\<bar> \<le> 1 / 2 ^ 53"
proof -
  from assms have "\<bar>round_double x - x\<bar> \<le> 2 powi (1 - 54)"
    by (intro round_double_error_below) simp_all
  then show ?thesis by (simp add: power_int_minus_divide)
qed

lemma round_double_abs_unit:
  assumes "\<bar>x\<bar> \<le> 1"
  shows "\<bar>round_double x\<bar> \<le> 1"
proof -
  from assms have "- 1 \<le> x" "x \<le> 1" by linarith+
  then have "round_double (- 1) \<le> round_double x" "round_double x \<le> round_double 1"
    using round_double_mono [of "- 1" x] round_double_mono [of x 1] by blast+
  then show ?thesis by (simp add: round_double_minus abs_le_iff)
qed

lemma round_double_eval:
  assumes "2 powi e \<le> \<bar>x\<bar>" and "\<bar>x\<bar> < 2 powi (e + 1)" and "- 1022 \<le> e"
  shows "round_double x = of_int (round_half_even (x / 2 powi (e - 52))) * 2 powi (e - 52)"
  using exponent_eqI [OF assms] by (simp add: round_double_eq ulp_def)

lemma round_double_idem: "round_double (round_double x) = round_double x"
proof -
  define n where "n = round_half_even (x / ulp x)"
  define k where "k = exponent x - 52"
  have u: "ulp x = 2 powi k" by (simp add: ulp_def k_def)
  have k: "- 1074 \<le> k" using exponent_ge [of x] by (simp add: k_def)
  have y: "round_double x = of_int n * 2 powi k" by (simp add: round_double_eq n_def u)
  have "\<bar>x\<bar> \<le> of_int (2 ^ 53) * ulp x"
    using exponent_upper [of x] unfolding two_powi_53_ulp by simp
  then have "x / ulp x \<le> of_int (2 ^ 53)" "of_int (- (2 ^ 53)) \<le> x / ulp x"
    by (simp_all add: pos_divide_le_eq pos_le_divide_eq abs_le_iff)
  then have "n \<le> 2 ^ 53" "- (2 ^ 53) \<le> n"
    unfolding n_def
    using round_half_even_mono [of "x / ulp x" "of_int (2 ^ 53)"]
      round_half_even_mono [of "of_int (- (2 ^ 53))" "x / ulp x"]
    by (simp_all only: round_half_even_of_int)
  then consider "n = 0" | "n = 2 ^ 53" | "n = - (2 ^ 53)" | "2 ^ 52 \<le> \<bar>n\<bar>" "\<bar>n\<bar> < 2 ^ 53"
    | "\<bar>n\<bar> < 2 ^ 52" "n \<noteq> 0"
    by linarith
  then have "round_double (of_int n * 2 powi k) = of_int n * 2 powi k"
  proof cases
    case 1
    then show ?thesis by simp
  next
    case 2
    have "of_int n * 2 powi k = (2::real) powi (53 + k)"
      unfolding 2 by (subst power_int_add) simp_all
    moreover have "round_double (2 powi (53 + k)) = 2 powi (53 + k)"
      using k by (intro round_double_pow2) simp
    ultimately show ?thesis by simp
  next
    case 3
    have "of_int n * 2 powi k = - ((2::real) powi (53 + k))"
      unfolding 3 by (subst power_int_add) simp_all
    moreover have "round_double (2 powi (53 + k)) = 2 powi (53 + k)"
      using k by (intro round_double_pow2) simp
    ultimately show ?thesis by (simp add: round_double_minus)
  next
    case 4
    then show ?thesis using k by (intro round_double_dyadic)
  next
    case 5
    have sub: "\<bar>x\<bar> < 2 powi (- 1022)"
    proof (rule ccontr)
      assume "\<not> \<bar>x\<bar> < 2 powi (- 1022)"
      then have "2 powi (exponent x) \<le> \<bar>x\<bar>" using exponent_normal [of x] by simp
      then have "of_int (2 ^ 52) * ulp x \<le> \<bar>x\<bar>" unfolding two_powi_52_ulp .
      then consider "of_int (2 ^ 52) \<le> x / ulp x" | "x / ulp x \<le> of_int (- (2 ^ 52))"
        by (cases "0 \<le> x") (simp_all add: pos_divide_le_eq pos_le_divide_eq)
      then have "2 ^ 52 \<le> \<bar>n\<bar>"
      proof cases
        case 1
        then have "2 ^ 52 \<le> n"
          unfolding n_def using round_half_even_mono [of "of_int (2 ^ 52)" "x / ulp x"]
          by (simp only: round_half_even_of_int)
        then show ?thesis by simp
      next
        case 2
        then have "n \<le> - (2 ^ 52)"
          unfolding n_def using round_half_even_mono [of "x / ulp x" "of_int (- (2 ^ 52))"]
          by (simp only: round_half_even_of_int)
        then show ?thesis by simp
      qed
      with 5(1) show False by simp
    qed
    then have "exponent x = - 1022" by (rule exponent_subnormal)
    then have k': "k = - 1074" by (simp add: k_def)
    let ?y = "of_int n * 2 powi k :: real"
    have "\<bar>?y\<bar> = of_int \<bar>n\<bar> * 2 powi k" by (simp add: abs_mult)
    also have "\<dots> < of_int (2 ^ 52) * 2 powi k"
      using 5(1) by (intro mult_strict_right_mono) simp_all
    also have "\<dots> = 2 powi (52 + k)" by (subst power_int_add) simp_all
    finally have "\<bar>?y\<bar> < 2 powi (- 1022)" by (simp add: k')
    then have "exponent ?y = - 1022" by (rule exponent_subnormal)
    then have "ulp ?y = 2 powi k" by (simp add: ulp_def k')
    then have "?y / ulp ?y = of_int n" by simp
    then have "?y / ulp ?y \<in> \<int>" by simp
    then show ?thesis by (rule round_double_exact)
  qed
  then show ?thesis by (simp only: y)
qed

lemma round_double_near_1:
  assumes "1 \<le> y" and "y < 1 + 1 / 2 ^ 53"
  shows "round_double y = 1"
proof -
  have e: "exponent y = 0" using assms by (intro exponent_eqI) simp_all
  then have u: "ulp y = 1 / 2 ^ 52" by (simp add: ulp_def power_int_minus_divide)
  have "2 ^ 52 \<le> y * 2 ^ 52" "y * 2 ^ 52 < 2 ^ 52 + 1 / 2" using assms by simp_all
  then have f: "\<lfloor>y * 2 ^ 52\<rfloor> = 2 ^ 52" by (intro floor_unique) simp_all
  then have "y * 2 ^ 52 - of_int \<lfloor>y * 2 ^ 52\<rfloor> < 1 / 2"
    using \<open>y * 2 ^ 52 < 2 ^ 52 + 1 / 2\<close> by simp
  then have "round_half_even (y * 2 ^ 52) = 2 ^ 52"
    using f by (simp add: round_half_even_def Let_def)
  then show ?thesis by (simp add: round_double_eq u)
qed

subsection \<open>The example session\<close>

lemma play_distracted:
  "fst (play Available 0 (setProMode True (loadProfile gentleProfile initial))) =
     distractedState\<lparr>interactionCount := 0, frequencyOffset := 0, textureOffset := 0\<rparr>"
  by (simp add: play_def init_def createAudioGraph_def startOscillator_def
      updateAudioParameters_def getProgress_def js_div_def setProMode_def loadProfile_def
      initial_def distractedState_def gentleProfile_def Let_def)

lemma run_distractedSession: "fst (run distractedSession initial) = distractedState"
  by (simp add: distractedSession_def play_distracted case_prod_beta)
     (simp add: recordInteraction_def getProgress_def js_div_def distractedState_def)

lemma run_snoc: "fst (run (xs @ [x]) s) = fst (step x (fst (run xs s)))"
  by (induction xs arbitrary: s) (simp_all add: case_prod_beta)

subsection \<open>Unit mapper, curve defaults and resets\<close>

text \<open>
  In exact arithmetic the frequency mapper sends 0 to 80 and 1 to 400, equals
  \<open>80 \<cdot> (400 / 80)\<^sup>v\<close> at every \<open>v\<close> in \<open>[0, 1]\<close> (and at the clamped
  value for every other \<open>v\<close>), and is strictly increasing on \<open>[0, 1]\<close>.
\<close>

lemma mapToFrequency_exact_strict_mono:
  "mapToFrequency 0 = 80 \<and> mapToFrequency 1 = 400
   \<and> (\<forall>v. mapToFrequency v = 80 * (400 / 80) powr (max 0 (min 1 v)))
   \<and> (\<forall>v. 0 \<le> v \<and> v \<le> 1 \<longrightarrow> mapToFrequency v = 80 * (400 / 80) powr v)
   \<and> (\<forall>v w. 0 \<le> v \<and> v < w \<and> w \<le> 1 \<longrightarrow> mapToFrequency v < mapToFrequency w)"
  by (simp add: mapToFrequency_def FREQ_MIN_def FREQ_MAX_def)

text \<open>
  C9. For every progress, an empty or absent curve interpolates to the neutral default
  0.5, and a curve of one point to that point's value.
\<close>

theorem interpolateCurve_empty_single:
  "interpolateCurve None p = 0.5 \<and> interpolateCurve (Some []) p = 0.5
   \<and> interpolateCurve (Some [pt]) p = val pt"
  by (simp add: interpolateCurve_def)

theorem interpolateCurve_empty_single_witness:
  "interpolateCurve None 0.3 = 0.5 \<and> interpolateCurve (Some []) 0.3 = 0.5
   \<and> interpolateCurve (Some [\<lparr>time = 0, val = 0.7\<rparr>]) 0.3 = 0.7"
  using interpolateCurve_empty_single [of "0.3" "\<lparr>time = 0, val = 0.7\<rparr>"] by simp

text \<open>
  C8. \<open>setProMode(false)\<close> sets all three offsets to 0, and \<open>loadProfile\<close> sets
  all three offsets and the interaction count to 0, in every state (playing or not).
\<close>

theorem reset_on_disable_and_load:
  "frequencyOffset (setProMode False s) = 0 \<and> textureOffset (setProMode False s) = 0
   \<and> modulationOffset (setProMode False s) = 0
   \<and> frequencyOffset (loadProfile prof s) = 0 \<and> textureOffset (loadProfile prof s) = 0
   \<and> modulationOffset (loadProfile prof s) = 0 \<and> interactionCount (loadProfile prof s) = 0"
  by (simp add: setProMode_def loadProfile_def)

theorem reset_on_disable_and_load_witness:
  "frequencyOffset distractedState \<noteq> 0 \<and> interactionCount distractedState \<noteq> 0
   \<and> isPlaying distractedState
   \<and> frequencyOffset (setProMode False distractedState) = 0
   \<and> textureOffset (setProMode False distractedState) = 0
   \<and> modulationOffset (setProMode False distractedState) = 0
   \<and> frequencyOffset (loadProfile overlapProfile distractedState) = 0
   \<and> textureOffset (loadProfile overlapProfile distractedState) = 0
   \<and> modulationOffset (loadProfile overlapProfile distractedState) = 0
   \<and> interactionCount (loadProfile overlapProfile distractedState) = 0"
  using reset_on_disable_and_load [of distractedState overlapProfile]
  by (simp add: distractedState_def)

subsection \<open>The adaptive state along a sequence of operations\<close>

lemma adaptive_ok_initial: "adaptive_ok initial"
  by (simp add: adaptive_ok_def initial_def)

lemma adaptive_ok_cong: "adaptive s' = adaptive s \<Longrightarrow> adaptive_ok s \<Longrightarrow> adaptive_ok s'"
  by (simp add: adaptive_def adaptive_ok_def)

lemma pause_adaptive: "adaptive (pause s) = adaptive s"
  by (simp add: pause_def adaptive_def)

lemma stop_adaptive: "adaptive (stop s) = adaptive s"
  using pause_adaptive [of s] by (simp add: stop_def adaptive_def)

lemma dispose_adaptive: "adaptive (dispose s) = adaptive s"
  using stop_adaptive [of s] by (simp add: dispose_def adaptive_def)

lemma onSessionComplete_adaptive: "adaptive (fst (onSessionComplete s)) = adaptive s"
  by (simp add: onSessionComplete_def Let_def stop_adaptive)

lemma updateAudioParameters_adaptive:
  "adaptive (fst (updateAudioParameters now s)) = adaptive s"
  by (simp add: updateAudioParameters_def onSessionComplete_adaptive Let_def adaptive_def [of "s\<lparr>animationFrameId := True\<rparr>"] adaptive_def [of s]
      split: option.splits jsnum.splits)

lemma init_adaptive: "adaptive (fst (init b s)) = adaptive s"
  by (simp add: init_def createAudioGraph_def adaptive_def split: backend.splits)

lemma play_adaptive: "adaptive (fst (play b now s)) = adaptive s"
proof -
  have "adaptive ((fst (init b s))\<lparr>oscillator := True, isPlaying := True, sessionStartTime := now\<rparr>)
        = adaptive s"
    using init_adaptive [of b s] by (simp add: adaptive_def)
  then show ?thesis
    using init_adaptive [of b s]
    by (simp add: play_def startOscillator_def Let_def case_prod_beta
        updateAudioParameters_adaptive)
qed

lemma setProMode_ok: "adaptive_ok s \<Longrightarrow> adaptive_ok (setProMode enabled s)"
  by (simp add: setProMode_def adaptive_ok_def Let_def)

lemma loadProfile_ok: "adaptive_ok (loadProfile prof s)"
  by (simp add: loadProfile_def adaptive_ok_def)

lemma recordInteraction_ok: "adaptive_ok s \<Longrightarrow> adaptive_ok (recordInteraction now s)"
  by (auto simp add: recordInteraction_def adaptive_ok_def Let_def min_def max_def)

lemma step_ok: "adaptive_ok s \<Longrightarrow> adaptive_ok (fst (step x s))"
  by (cases x)
     (simp_all add: setProMode_ok loadProfile_ok recordInteraction_ok
        adaptive_ok_cong [OF init_adaptive] adaptive_ok_cong [OF play_adaptive]
        adaptive_ok_cong [OF pause_adaptive] adaptive_ok_cong [OF stop_adaptive]
        adaptive_ok_cong [OF dispose_adaptive] adaptive_ok_cong [OF updateAudioParameters_adaptive])

lemma run_ok: "adaptive_ok s \<Longrightarrow> adaptive_ok (fst (run xs s))"
proof (induction xs arbitrary: s)
  case Nil
  then show ?case by simp
next
  case (Cons x xs)
  from Cons.prems have "adaptive_ok (fst (step x s))" by (rule step_ok)
  then have "adaptive_ok (fst (run xs (fst (step x s))))" by (rule Cons.IH)
  then show ?case by (simp add: case_prod_beta)
qed

text \<open>
  C4. After any finite sequence of operations from the initial state, each of the three
  adaptive offsets lies in \<open>[-0.1, 0.1]\<close>.
\<close>

theorem offsets_bounded:
  "- 0.1 \<le> frequencyOffset (fst (run xs initial)) \<and> frequencyOffset (fst (run xs initial)) \<le> 0.1
   \<and> - 0.1 \<le> textureOffset (fst (run xs initial)) \<and> textureOffset (fst (run xs initial)) \<le> 0.1
   \<and> - 0.1 \<le> modulationOffset (fst (run xs initial)) \<and> modulationOffset (fst (run xs initial)) \<le> 0.1"
  using run_ok [OF adaptive_ok_initial, of xs] by (simp add: adaptive_ok_def)

theorem offsets_bounded_witness:
  "frequencyOffset (fst (run distractedSession initial)) = - 0.01
   \<and> - 0.1 \<le> frequencyOffset (fst (run distractedSession initial))
   \<and> frequencyOffset (fst (run distractedSession initial)) \<le> 0.1"
  using offsets_bounded [of distractedSession]
  by (simp add: run_distractedSession distractedState_def)

text \<open>
  C10. In every state reached from the initial state, the frequency and texture offsets
  lie in \<open>[-0.1, 0]\<close>, the modulation offset lies in \<open>[0, 0.1]\<close>, and all three
  are exactly zero whenever Pro Mode is disabled.
\<close>

theorem offsets_signed:
  "- 0.1 \<le> frequencyOffset (fst (run xs initial)) \<and> frequencyOffset (fst (run xs initial)) \<le> 0
   \<and> - 0.1 \<le> textureOffset (fst (run xs initial)) \<and> textureOffset (fst (run xs initial)) \<le> 0
   \<and> 0 \<le> modulationOffset (fst (run xs initial)) \<and> modulationOffset (fst (run xs initial)) \<le> 0.1
   \<and> (\<not> proModeEnabled (fst (run xs initial)) \<longrightarrow>
        frequencyOffset (fst (run xs initial)) = 0 \<and> textureOffset (fst (run xs initial)) = 0
        \<and> modulationOffset (fst (run xs initial)) = 0)"
  using run_ok [OF adaptive_ok_initial, of xs] by (auto simp add: adaptive_ok_def)

theorem offsets_signed_witness:
  "\<not> proModeEnabled (fst (run (distractedSession @ [SetProMode False]) initial))
   \<and> frequencyOffset (fst (run (distractedSession @ [SetProMode False]) initial)) = 0
   \<and> textureOffset (fst (run (distractedSession @ [SetProMode False]) initial)) = 0
   \<and> modulationOffset (fst (run (distractedSession @ [SetProMode False]) initial)) = 0"
proof -
  have "\<not> proModeEnabled (fst (run (distractedSession @ [SetProMode False]) initial))"
    by (simp add: run_snoc setProMode_def)
  with offsets_signed [of "distractedSession @ [SetProMode False]"] show ?thesis by blast
qed

lemma targets_not_SessionComplete:
  "SessionComplete d \<notin> set (applyTexture v s)"
  "SessionComplete d \<notin> set (applyModulation now p s)"
  "SessionComplete d \<notin> set (applySilenceBlocks p s)"
  "SessionComplete d \<notin> set (applySubtlePanning now s)"
  by (simp_all add: applyTexture_def applyModulation_def applySilenceBlocks_def
      applySubtlePanning_def Let_def split: option.splits)

lemma SessionComplete_in_updateAudioParameters:
  "SessionComplete d \<in> set (snd (updateAudioParameters now s)) \<Longrightarrow>
   SessionComplete d \<in> set (snd (onSessionComplete s))"
  by (simp add: updateAudioParameters_def Let_def targets_not_SessionComplete
      split: option.splits jsnum.splits if_splits)

lemma SessionComplete_in_play:
  "SessionComplete d \<in> set (snd (play b now s)) \<Longrightarrow>
   \<exists>s'. adaptive s' = adaptive s \<and> SessionComplete d \<in> set (snd (updateAudioParameters now s'))"
proof -
  assume a: "SessionComplete d \<in> set (snd (play b now s))"
  let ?s3 = "(fst (init b s))\<lparr>oscillator := True, isPlaying := True, sessionStartTime := now\<rparr>"
  have "adaptive ?s3 = adaptive s"
    using init_adaptive [of b s] by (simp add: adaptive_def)
  moreover from a have "SessionComplete d \<in> set (snd (updateAudioParameters now ?s3))"
    by (auto simp add: play_def startOscillator_def Let_def case_prod_beta split: if_splits)
  ultimately show ?thesis by blast
qed

lemma onSessionComplete_wasAdapted:
  "SessionComplete d \<in> set (snd (onSessionComplete s)) \<Longrightarrow>
   wasAdapted d = (proModeEnabled s \<and> (frequencyOffset s \<noteq> 0 \<or> textureOffset s \<noteq> 0 \<or> modulationOffset s \<noteq> 0))"
  using stop_adaptive [of s] by (auto simp add: onSessionComplete_def Let_def adaptive_def)

lemma step_wasAdapted:
  assumes "SessionComplete d \<in> set (snd (step x s))"
  shows "wasAdapted d = (proModeEnabled s \<and> (frequencyOffset s \<noteq> 0 \<or> textureOffset s \<noteq> 0 \<or> modulationOffset s \<noteq> 0))"
proof (cases x)
  case (Play b now)
  with assms have "SessionComplete d \<in> set (snd (play b now s))" by simp
  from SessionComplete_in_play [OF this] obtain s' where s': "adaptive s' = adaptive s"
      "SessionComplete d \<in> set (snd (updateAudioParameters now s'))"
    by blast
  from s'(2) have "SessionComplete d \<in> set (snd (onSessionComplete s'))"
    using SessionComplete_in_updateAudioParameters by simp
  then show ?thesis using onSessionComplete_wasAdapted [of d s'] s'(1) by (simp add: adaptive_def)
next
  case (Frame now)
  with assms have "SessionComplete d \<in> set (snd (onSessionComplete s))"
    using SessionComplete_in_updateAudioParameters by simp
  then show ?thesis by (rule onSessionComplete_wasAdapted)
qed (use assms in simp_all)

text \<open>
  C3. In a state reached from the initial state, a completion signal emitted by an
  operation carries \<open>wasAdapted = True\<close> if and only if at least one of the three
  adaptive offsets is nonzero at that moment.
\<close>

theorem wasAdapted_iff_offset_nonzero:
  assumes "s = fst (run xs initial)" and "SessionComplete d \<in> set (snd (step x s))"
  shows "wasAdapted d \<longleftrightarrow>
           (frequencyOffset (fst (step x s)) \<noteq> 0 \<or> textureOffset (fst (step x s)) \<noteq> 0
            \<or> modulationOffset (fst (step x s)) \<noteq> 0)"
proof -
  have ok: "adaptive_ok s" using assms(1) run_ok [OF adaptive_ok_initial] by simp
  have "adaptive (fst (step x s)) = adaptive s"
    using assms(2) by (cases x) (simp_all add: play_adaptive updateAudioParameters_adaptive)
  then show ?thesis
    using step_wasAdapted [OF assms(2)] ok by (auto simp add: adaptive_def adaptive_ok_def)
qed

theorem wasAdapted_iff_offset_nonzero_witness:
  "SessionComplete
     \<lparr>detailProfileId = Some ''focus'', detailProfileName = Some ''focus'',
      detailDuration = 100, detailProModeEnabled = True, wasAdapted = True\<rparr>
     \<in> set (snd (step (Frame 100) (fst (run distractedSession initial))))
   \<and> frequencyOffset (fst (step (Frame 100) (fst (run distractedSession initial)))) \<noteq> 0"
proof -
  let ?d = "\<lparr>detailProfileId = Some ''focus'', detailProfileName = Some ''focus'',
      detailDuration = 100, detailProModeEnabled = True, wasAdapted = True\<rparr>"
  have a: "distractedState = fst (run distractedSession initial)"
    by (simp add: run_distractedSession)
  have b: "SessionComplete ?d \<in> set (snd (step (Frame 100) distractedState))"
    by (simp add: updateAudioParameters_def getProgress_def onSessionComplete_def stop_def
        pause_def distractedState_def gentleProfile_def Let_def)
  have f: "frequencyOffset (fst (step (Frame 100) distractedState)) \<noteq> 0"
    by (simp add: updateAudioParameters_def getProgress_def onSessionComplete_def stop_def
        pause_def distractedState_def gentleProfile_def Let_def)
  from wasAdapted_iff_offset_nonzero [OF a b] a b f show ?thesis by simp
qed

text \<open>
  C5. \<open>recordInteraction\<close> leaves the state unchanged unless Pro Mode is enabled and
  a session is playing. Otherwise it increments the interaction count and, with
  \<open>rate = interactionCount / elapsedMinutes\<close>: when the rate exceeds 2 (an elapsed
  time of zero makes the quotient \<open>+Infinity\<close>) it lowers the frequency and texture
  offsets by 0.01, floored at -0.1; else when more than 300 seconds have elapsed and the
  rate is below 0.5 it raises the modulation offset by 0.005, capped at 0.1; otherwise it
  changes no offset.
\<close>

theorem recordInteraction_cases:
  "(\<not> (proModeEnabled s \<and> isPlaying s) \<longrightarrow> recordInteraction now s = s)
   \<and> (proModeEnabled s \<and> isPlaying s \<longrightarrow>
        (let n = interactionCount s + 1;
             elapsedSeconds = elapsed (getProgress now s);
             elapsedMinutes = elapsedSeconds / 60;
             rate = real n / elapsedMinutes
         in (elapsedMinutes = 0 \<or> rate > 2 \<longrightarrow>
               recordInteraction now s =
                 s\<lparr>interactionCount := n,
                   frequencyOffset := max (- 0.1) (frequencyOffset s - 0.01),
                   textureOffset := max (- 0.1) (textureOffset s - 0.01)\<rparr>)
          \<and> (elapsedMinutes \<noteq> 0 \<and> \<not> rate > 2 \<and> elapsedSeconds > 300 \<and> rate < 0.5 \<longrightarrow>
               recordInteraction now s =
                 s\<lparr>interactionCount := n,
                   modulationOffset := min 0.1 (modulationOffset s + 0.005)\<rparr>)
          \<and> (elapsedMinutes \<noteq> 0 \<and> \<not> rate > 2 \<and> \<not> (elapsedSeconds > 300 \<and> rate < 0.5) \<longrightarrow>
               recordInteraction now s = s\<lparr>interactionCount := n\<rparr>)))"
proof -
  have e: "elapsed (getProgress now (s\<lparr>interactionCount := interactionCount s + 1\<rparr>))
           = elapsed (getProgress now s)"
    by (simp add: getProgress_def Let_def)
  show ?thesis
    unfolding recordInteraction_def Let_def e
    by (auto simp add: js_div_def)
qed

theorem recordInteraction_cases_witness:
  "recordInteraction 1 initial = initial
   \<and> recordInteraction 0 distractedState
       = distractedState\<lparr>interactionCount := 2,
           frequencyOffset := - 0.02, textureOffset := - 0.02\<rparr>
   \<and> recordInteraction 30 distractedState
       = distractedState\<lparr>interactionCount := 2,
           frequencyOffset := - 0.02, textureOffset := - 0.02\<rparr>
   \<and> recordInteraction 600 distractedState
       = distractedState\<lparr>interactionCount := 2, modulationOffset := 0.005\<rparr>
   \<and> recordInteraction 120 distractedState = distractedState\<lparr>interactionCount := 2\<rparr>"
proof -
  have e: "elapsed (getProgress now distractedState) = now" for now
    by (simp add: getProgress_def distractedState_def)
  have s: "proModeEnabled distractedState" "isPlaying distractedState"
    "interactionCount distractedState = 1" "frequencyOffset distractedState = - 0.01"
    "textureOffset distractedState = - 0.01" "modulationOffset distractedState = 0"
    by (simp_all add: distractedState_def)
  have i: "\<not> (proModeEnabled initial \<and> isPlaying initial)"
    by (simp add: initial_def)
  from recordInteraction_cases [of initial 1] i
  have 1: "recordInteraction 1 initial = initial" by blast
  from recordInteraction_cases [of distractedState 0]
  have 2: "recordInteraction 0 distractedState
       = distractedState\<lparr>interactionCount := 2,
           frequencyOffset := - 0.02, textureOffset := - 0.02\<rparr>"
    by (simp add: Let_def e s)
  from recordInteraction_cases [of distractedState 30]
  have 3: "recordInteraction 30 distractedState
       = distractedState\<lparr>interactionCount := 2,
           frequencyOffset := - 0.02, textureOffset := - 0.02\<rparr>"
    by (simp add: Let_def e s)
  from recordInteraction_cases [of distractedState 600]
  have 4: "recordInteraction 600 distractedState
       = distractedState\<lparr>interactionCount := 2, modulationOffset := 0.005\<rparr>"
    by (simp add: Let_def e s)
  from recordInteraction_cases [of distractedState 120]
  have 5: "recordInteraction 120 distractedState = distractedState\<lparr>interactionCount := 2\<rparr>"
    by (simp add: Let_def e s)
  from 1 2 3 4 5 show ?thesis by blast
qed

subsection \<open>Interpolation in exact arithmetic\<close>

lemma findBracket_Some:
  "findBracket c p = Some (a, b) \<Longrightarrow> a \<in> set c \<and> b \<in> set c \<and> time a \<le> p \<and> p \<le> time b"
  by (induction c p rule: findBracket.induct) (auto split: if_splits)

lemma findBracket_None_last:
  "findBracket c p = None \<Longrightarrow> x \<in> set c \<Longrightarrow> time x \<le> p \<Longrightarrow> time (last c) \<le> p"
proof (induction c p arbitrary: x rule: findBracket.induct)
  case (1 a b rest p)
  from "1.prems"(1) have nb: "\<not> (time a \<le> p \<and> time b \<ge> p)" and n: "findBracket (b # rest) p = None"
    by (auto split: if_splits)
  have "\<exists>y \<in> set (b # rest). time y \<le> p"
  proof (cases "x = a")
    case True
    with "1.prems"(3) nb have "time b \<le> p" by simp
    then show ?thesis by auto
  next
    case False
    with "1.prems"(2,3) show ?thesis by auto
  qed
  then obtain y where "y \<in> set (b # rest)" "time y \<le> p" by blast
  with "1.IH" nb n have "time (last (b # rest)) \<le> p" by blast
  then show ?case by simp
qed simp_all

lemma findBracket_None_hd:
  "findBracket c p = None \<Longrightarrow> c \<noteq> [] \<Longrightarrow> time (hd c) \<le> p \<Longrightarrow> x \<in> set (tl c) \<Longrightarrow> time x < p"
proof (induction c p arbitrary: x rule: findBracket.induct)
  case (1 a b rest p)
  from "1.prems"(1) have nb: "\<not> (time a \<le> p \<and> time b \<ge> p)" and n: "findBracket (b # rest) p = None"
    by (auto split: if_splits)
  from nb "1.prems"(3) have b: "time b < p" by simp
  show ?case
  proof (cases "x = b")
    case True
    with b show ?thesis by simp
  next
    case False
    with "1.prems"(4) have "x \<in> set (tl (b # rest))" by simp
    with "1.IH" nb n b show ?thesis by force
  qed
qed simp_all

lemma lerp_between:
  fixes a b t :: real
  assumes "0 \<le> t" "t \<le> 1"
  shows "min a b \<le> a + (b - a) * t \<and> a + (b - a) * t \<le> max a b"
proof (cases "a \<le> b")
  case True
  then have m: "min a b = a" "max a b = b" by simp_all
  from True assms have "0 \<le> (b - a) * t" "(b - a) * t \<le> b - a"
    by (simp_all add: mult_left_le)
  then show ?thesis unfolding m by linarith
next
  case False
  then have m: "min a b = b" "max a b = a" by simp_all
  from False assms have "0 \<le> (a - b) * t" "(a - b) * t \<le> a - b"
    by (simp_all add: mult_left_le)
  moreover have "(b - a) * t = - ((a - b) * t)"
    by (simp add: algebra_simps)
  ultimately show ?thesis unfolding m by linarith
qed

lemma interpolateCurve_bracket:
  assumes "2 \<le> length c" and "findBracket c p = Some (a, b)"
  shows "interpolateCurve (Some c) p =
     (if time b - time a = 0 then val a
      else val a + (val b - val a) * ((p - time a) / (time b - time a)))"
proof -
  from assms(1) have "c \<noteq> []" "length c \<noteq> 1" by auto
  with assms(2) show ?thesis
    by (simp add: interpolateCurve_def Let_def)
qed

lemma interpolateCurve_fallback:
  assumes "2 \<le> length c" and "findBracket c p = None"
  shows "interpolateCurve (Some c) p =
     (if time (last c) - time (hd c) = 0 then val (hd c)
      else val (hd c)
           + (val (last c) - val (hd c)) * ((p - time (hd c)) / (time (last c) - time (hd c))))"
proof -
  from assms(1) have "c \<noteq> []" "length c \<noteq> 1" by auto
  with assms(2) show ?thesis
    by (simp add: interpolateCurve_def Let_def hd_conv_nth last_conv_nth)
qed

lemma interpolateCurve_as_lerp:
  assumes len: "2 \<le> length c"
    and lo: "Min (time ` set c) \<le> p" and hi: "p \<le> Max (time ` set c)"
  shows "\<exists>lower upper t. lower \<in> set c \<and> upper \<in> set c \<and> 0 \<le> t \<and> t \<le> 1
           \<and> interpolateCurve (Some c) p = val lower + (val upper - val lower) * t"
proof (cases "findBracket c p")
  case (Some br)
  obtain a b where br: "br = (a, b)" by (cases br)
  from Some br findBracket_Some have ab: "a \<in> set c" "b \<in> set c" "time a \<le> p" "p \<le> time b"
    by blast+
  show ?thesis
  proof (cases "time b - time a = 0")
    case True
    with Some br have "interpolateCurve (Some c) p = val a + (val b - val a) * 0"
      by (simp add: interpolateCurve_bracket [OF len])
    with ab show ?thesis by (metis order_refl zero_le_one)
  next
    case False
    let ?t = "(p - time a) / (time b - time a)"
    from False ab have "0 \<le> ?t" "?t \<le> 1" by simp_all
    moreover from Some br False
    have "interpolateCurve (Some c) p = val a + (val b - val a) * ?t"
      by (simp add: interpolateCurve_bracket [OF len])
    ultimately show ?thesis using ab by blast
  qed
next
  case None
  from len have ne: "c \<noteq> []" by auto
  let ?a = "hd c" and ?b = "last c"
  from ne have ab: "?a \<in> set c" "?b \<in> set c" by simp_all
  show ?thesis
  proof (cases "time ?b - time ?a = 0")
    case True
    with None have "interpolateCurve (Some c) p = val ?a + (val ?b - val ?a) * 0"
      by (simp add: interpolateCurve_fallback [OF len])
    with ab show ?thesis by (metis order_refl zero_le_one)
  next
    case False
    let ?t = "(p - time ?a) / (time ?b - time ?a)"
    from None False
    have eq: "interpolateCurve (Some c) p = val ?a + (val ?b - val ?a) * ?t"
      by (simp add: interpolateCurve_fallback [OF len])
    have "0 \<le> ?t \<and> ?t \<le> 1"
    proof (cases "time ?a \<le> p")
      case True
      from ne have "Max (time ` set c) \<in> time ` set c" by (intro Max_in) simp_all
      then obtain x where x: "x \<in> set c" "time x = Max (time ` set c)" by auto
      have "x = ?a"
      proof (rule ccontr)
        assume "x \<noteq> ?a"
        with x(1) ne have "x \<in> set (tl c)" by (cases c) auto
        with findBracket_None_hd [OF None ne True] have "time x < p" by blast
        with x(2) hi show False by simp
      qed
      with x(2) hi True have "time ?a = p" by simp
      then show ?thesis by simp
    next
      case F: False
      from ne have "Min (time ` set c) \<in> time ` set c" by (intro Min_in) simp_all
      then obtain x where x: "x \<in> set c" "time x = Min (time ` set c)" by auto
      with lo have "time x \<le> p" by simp
      with findBracket_None_last [OF None x(1)] have l: "time ?b \<le> p" by blast
      with F have neg: "time ?b - time ?a < 0" by simp
      have "?t = (time ?a - p) / (time ?a - time ?b)"
        by (metis minus_diff_eq minus_divide_divide)
      moreover from F l have "0 \<le> (time ?a - p) / (time ?a - time ?b)"
        "(time ?a - p) / (time ?a - time ?b) \<le> 1" by simp_all
      ultimately show ?thesis by simp
    qed
    with eq ab show ?thesis by blast
  qed
qed

text \<open>
  In exact arithmetic, for every curve with at least two points and every progress that
  lies within the curve's time span, the interpolated value lies between the least and
  the greatest value of the curve's points.
\<close>

lemma interpolateCurve_exact_no_overshoot:
  assumes "2 \<le> length c" and "0 \<le> p" and "p \<le> 1"
    and "Min (time ` set c) \<le> p" and "p \<le> Max (time ` set c)"
  shows "Min (val ` set c) \<le> interpolateCurve (Some c) p
         \<and> interpolateCurve (Some c) p \<le> Max (val ` set c)"
proof -
  from interpolateCurve_as_lerp [OF assms(1,4,5)]
  obtain lower upper t where h: "lower \<in> set c" "upper \<in> set c" "0 \<le> t" "t \<le> 1"
    "interpolateCurve (Some c) p = val lower + (val upper - val lower) * t" by blast
  have "Min (val ` set c) \<le> val lower" "Min (val ` set c) \<le> val upper"
    "val lower \<le> Max (val ` set c)" "val upper \<le> Max (val ` set c)"
    using h(1,2) by simp_all
  with lerp_between [OF h(3,4), of "val lower" "val upper"] h(5) show ?thesis
    by (simp add: min_def max_def split: if_splits)
qed

subsection \<open>Interpolation on doubles\<close>

lemma lerp_rounded_bound:
  assumes a: "0 \<le> a" "a \<le> 1" and b: "0 \<le> b" "b \<le> 1" and t: "0 \<le> t" "t \<le> 1"
  shows "min a b - 1 / 2 ^ 52 \<le> round_double (a + round_double (round_double (b - a) * t))
         \<and> round_double (a + round_double (round_double (b - a) * t)) \<le> max a b + 1 / 2 ^ 52"
proof -
  define d where "d = round_double (b - a)"
  define m where "m = round_double (d * t)"
  define e :: real where "e = 1 / 2 ^ 54"
  have ba: "\<bar>b - a\<bar> \<le> 1" using a b by linarith
  have d1: "\<bar>d - (b - a)\<bar> \<le> e" unfolding d_def e_def by (rule round_double_error_unit [OF ba])
  have d2: "\<bar>d\<bar> \<le> 1" unfolding d_def by (rule round_double_abs_unit [OF ba])
  have dt: "min 0 d \<le> d * t \<and> d * t \<le> max 0 d"
    using lerp_between [OF t, of 0 d] by simp
  moreover have "- 1 \<le> min 0 d" "max 0 d \<le> 1" using d2 by (simp_all add: abs_le_iff)
  ultimately have "\<bar>d * t\<bar> \<le> 1" by linarith
  then have m1: "\<bar>m - d * t\<bar> \<le> e" unfolding m_def e_def by (rule round_double_error_unit)
  have lo: "min a b - 2 * e \<le> a + m" and hi: "a + m \<le> max a b + 2 * e"
    using d1 dt m1 by linarith+
  have e_small: "2 * e < 1 / 2" unfolding e_def by simp
  have "\<bar>a + m\<bar> < 2" using lo hi a b e_small by linarith
  then have "\<bar>round_double (a + m) - (a + m)\<bar> \<le> 1 / 2 ^ 53" by (rule round_double_error_2)
  moreover have "(1::real) / 2 ^ 53 = 2 * e" unfolding e_def by simp
  moreover have "(1::real) / 2 ^ 52 = 4 * e" unfolding e_def by simp
  ultimately show ?thesis using lo hi unfolding m_def d_def by linarith
qed

lemma interpolateCurve_rounded_bracket:
  assumes "2 \<le> length c" and "findBracket c p = Some (a, b)"
  shows "interpolateCurve_rounded (Some c) p =
     (if round_double (time b - time a) = 0 then val a
      else round_double
             (val a
              + round_double
                  (round_double (val b - val a)
                   * round_double (round_double (p - time a) / round_double (time b - time a)))))"
proof -
  from assms(1) have "c \<noteq> []" "length c \<noteq> 1" by auto
  with assms(2) show ?thesis
    by (simp add: interpolateCurve_rounded_def Let_def)
qed

lemma interpolateCurve_rounded_fallback:
  assumes "2 \<le> length c" and "findBracket c p = None"
  shows "interpolateCurve_rounded (Some c) p =
     (if round_double (time (last c) - time (hd c)) = 0 then val (hd c)
      else round_double
             (val (hd c)
              + round_double
                  (round_double (val (last c) - val (hd c))
                   * round_double
                       (round_double (p - time (hd c))
                        / round_double (time (last c) - time (hd c))))))"
proof -
  from assms(1) have "c \<noteq> []" "length c \<noteq> 1" by auto
  with assms(2) show ?thesis
    by (simp add: interpolateCurve_rounded_def Let_def hd_conv_nth last_conv_nth)
qed

lemma rounded_ratio_unit:
  assumes "lo \<le> x" and "x \<le> hi" and "round_double (hi - lo) \<noteq> 0"
  shows "0 \<le> round_double (round_double (x - lo) / round_double (hi - lo))
         \<and> round_double (round_double (x - lo) / round_double (hi - lo)) \<le> 1"
proof -
  let ?n = "round_double (x - lo)" and ?d = "round_double (hi - lo)"
  have "0 \<le> ?n" using assms(1) by (intro round_double_nonneg) simp
  moreover have "?n \<le> ?d" using assms(2) by (intro round_double_mono) simp
  ultimately have "0 \<le> ?n / ?d" "?n / ?d \<le> 1" using assms(3) by simp_all
  then show ?thesis by (rule round_double_unit)
qed

lemma rounded_ratio_unit_rev:
  assumes "lo \<le> x" and "x \<le> hi" and "round_double (lo - hi) \<noteq> 0"
  shows "0 \<le> round_double (round_double (x - hi) / round_double (lo - hi))
         \<and> round_double (round_double (x - hi) / round_double (lo - hi)) \<le> 1"
proof -
  let ?n = "round_double (x - hi)" and ?d = "round_double (lo - hi)"
  have "?n \<le> 0" using assms(2) by (intro round_double_nonpos) simp
  moreover have "?d \<le> ?n" using assms(1) by (intro round_double_mono) simp
  ultimately have "0 \<le> ?n / ?d" "?n / ?d \<le> 1" using assms(3)
    by (simp_all add: divide_nonpos_nonpos divide_le_eq)
  then show ?thesis by (rule round_double_unit)
qed

lemma interpolateCurve_rounded_as_lerp:
  assumes len: "2 \<le> length c"
    and lo: "Min (time ` set c) \<le> p" and hi: "p \<le> Max (time ` set c)"
  shows "(\<exists>lower \<in> set c. interpolateCurve_rounded (Some c) p = val lower)
         \<or> (\<exists>lower upper t. lower \<in> set c \<and> upper \<in> set c \<and> 0 \<le> t \<and> t \<le> 1
               \<and> interpolateCurve_rounded (Some c) p
                   = round_double
                       (val lower + round_double (round_double (val upper - val lower) * t)))"
proof (cases "findBracket c p")
  case (Some br)
  obtain a b where br: "br = (a, b)" by (cases br)
  from Some br findBracket_Some have ab: "a \<in> set c" "b \<in> set c" "time a \<le> p" "p \<le> time b"
    by blast+
  show ?thesis
  proof (cases "round_double (time b - time a) = 0")
    case True
    with Some br have "interpolateCurve_rounded (Some c) p = val a"
      by (simp add: interpolateCurve_rounded_bracket [OF len])
    with ab show ?thesis by blast
  next
    case False
    let ?t = "round_double (round_double (p - time a) / round_double (time b - time a))"
    from rounded_ratio_unit [OF ab(3,4) False] have "0 \<le> ?t" "?t \<le> 1" by simp_all
    moreover from Some br False
    have "interpolateCurve_rounded (Some c) p
          = round_double (val a + round_double (round_double (val b - val a) * ?t))"
      by (simp add: interpolateCurve_rounded_bracket [OF len])
    ultimately show ?thesis using ab by blast
  qed
next
  case None
  from len have ne: "c \<noteq> []" by auto
  let ?a = "hd c" and ?b = "last c"
  from ne have ab: "?a \<in> set c" "?b \<in> set c" by simp_all
  show ?thesis
  proof (cases "round_double (time ?b - time ?a) = 0")
    case True
    with None have "interpolateCurve_rounded (Some c) p = val ?a"
      by (simp add: interpolateCurve_rounded_fallback [OF len])
    with ab show ?thesis by blast
  next
    case False
    let ?t = "round_double (round_double (p - time ?a) / round_double (time ?b - time ?a))"
    from None False
    have eq: "interpolateCurve_rounded (Some c) p
              = round_double (val ?a + round_double (round_double (val ?b - val ?a) * ?t))"
      by (simp add: interpolateCurve_rounded_fallback [OF len])
    have "0 \<le> ?t \<and> ?t \<le> 1"
    proof (cases "time ?a \<le> p")
      case True
      from ne have "Max (time ` set c) \<in> time ` set c" by (intro Max_in) simp_all
      then obtain x where x: "x \<in> set c" "time x = Max (time ` set c)" by auto
      have "x = ?a"
      proof (rule ccontr)
        assume "x \<noteq> ?a"
        with x(1) ne have "x \<in> set (tl c)" by (cases c) auto
        with findBracket_None_hd [OF None ne True] have "time x < p" by blast
        with x(2) hi show False by simp
      qed
      with x(2) hi True have "time ?a = p" by simp
      then show ?thesis by simp
    next
      case F: False
      from ne have "Min (time ` set c) \<in> time ` set c" by (intro Min_in) simp_all
      then obtain x where x: "x \<in> set c" "time x = Min (time ` set c)" by auto
      with lo have "time x \<le> p" by simp
      with findBracket_None_last [OF None x(1)] have l: "time ?b \<le> p" by blast
      from F have "p \<le> time ?a" by simp
      from rounded_ratio_unit_rev [OF l this False] show ?thesis .
    qed
    with eq ab show ?thesis by blast
  qed
qed

text \<open>
  The rounded interpolation passes the greatest value of the curve
  \<open>[{0, 0.03}, {1, 0.29}]\<close> at progress 1: it returns \<open>0.29000000000000004\<close>, one
  double above \<open>0.29\<close>.
\<close>

theorem interpolateCurve_rounded_overshoot:
  "2 \<le> length decimalCurve
   \<and> Min (time ` set decimalCurve) \<le> 1 \<and> 1 \<le> Max (time ` set decimalCurve)
   \<and> Max (val ` set decimalCurve) = 5224175567749775 / 2 ^ 54
   \<and> interpolateCurve_rounded (Some decimalCurve) 1 = 5224175567749776 / 2 ^ 54
   \<and> Max (val ` set decimalCurve) < interpolateCurve_rounded (Some decimalCurve) 1"
proof -
  define A :: real where "A = 8646911284551352 / 2 ^ 58"
  define B :: real where "B = 5224175567749775 / 2 ^ 54"
  define D :: real where "D = 4683743612465316 / 2 ^ 54"
  define R :: real where "R = 5224175567749776 / 2 ^ 54"
  have a: "round_double (3 / 100) = A"
    unfolding A_def
    by (subst round_double_eval [of "- 6"])
       (simp_all add: power_int_minus_divide round_half_even_def Let_def)
  have b: "round_double (29 / 100) = B"
    unfolding B_def
    by (subst round_double_eval [of "- 2"])
       (simp_all add: power_int_minus_divide round_half_even_def Let_def)
  have d: "round_double (B - A) = D"
    unfolding A_def B_def D_def
    by (subst round_double_eval [of "- 2"])
       (simp_all add: power_int_minus_divide round_half_even_def Let_def)
  have d': "round_double D = D"
    unfolding D_def
    by (subst round_double_eval [of "- 2"])
       (simp_all add: power_int_minus_divide round_half_even_def Let_def)
  have r: "round_double (A + D) = R"
    unfolding A_def D_def R_def
    by (subst round_double_eval [of "- 2"])
       (simp_all add: power_int_minus_divide round_half_even_def Let_def)
  have c: "decimalCurve = [\<lparr>time = 0, val = A\<rparr>, \<lparr>time = 1, val = B\<rparr>]"
    by (simp add: decimalCurve_def a b)
  have i: "interpolateCurve_rounded (Some decimalCurve) 1 = R"
    unfolding c by (simp add: interpolateCurve_rounded_def d d' r)
  have "A < B" "B < R" unfolding A_def B_def R_def by simp_all
  then have m: "Max (val ` set decimalCurve) = B" "B < R"
    unfolding c by simp_all
  show ?thesis
    unfolding i m(1) using m(2) unfolding c by (simp add: B_def R_def)
qed

text \<open>
  C2. For every curve with at least two points whose times and values lie in \<open>[0, 1]\<close>
  and every progress in \<open>[0, 1]\<close> within the curve's time span (between the least and
  the greatest time of its points), the value interpolated in double arithmetic lies
  within \<open>1 / 2 ^ 52\<close> of the range between the least and the greatest value of the
  curve's points. Nothing is assumed about the order of the points or about repeated times.
\<close>

theorem interpolateCurve_rounded_near_range:
  assumes "2 \<le> length c"
    and "\<forall>pt \<in> set c. 0 \<le> time pt \<and> time pt \<le> 1 \<and> 0 \<le> val pt \<and> val pt \<le> 1"
    and "0 \<le> p" and "p \<le> 1"
    and "Min (time ` set c) \<le> p" and "p \<le> Max (time ` set c)"
  shows "Min (val ` set c) - 1 / 2 ^ 52 \<le> interpolateCurve_rounded (Some c) p
         \<and> interpolateCurve_rounded (Some c) p \<le> Max (val ` set c) + 1 / 2 ^ 52"
proof -
  have mm: "Min (val ` set c) \<le> val x \<and> val x \<le> Max (val ` set c)" if "x \<in> set c" for x
    using that by simp
  from interpolateCurve_rounded_as_lerp [OF assms(1,5,6)] show ?thesis
  proof
    assume "\<exists>lower \<in> set c. interpolateCurve_rounded (Some c) p = val lower"
    then obtain lower where "lower \<in> set c" "interpolateCurve_rounded (Some c) p = val lower"
      by blast
    with mm [of lower] show ?thesis by (simp add: add_increasing2 diff_le_eq)
  next
    assume "\<exists>lower upper t. lower \<in> set c \<and> upper \<in> set c \<and> 0 \<le> t \<and> t \<le> 1
               \<and> interpolateCurve_rounded (Some c) p
                   = round_double
                       (val lower + round_double (round_double (val upper - val lower) * t))"
    then obtain lower upper t where h: "lower \<in> set c" "upper \<in> set c" "0 \<le> t" "t \<le> 1"
      "interpolateCurve_rounded (Some c) p
         = round_double (val lower + round_double (round_double (val upper - val lower) * t))"
      by blast
    from assms(2) h(1,2) have r: "0 \<le> val lower" "val lower \<le> 1" "0 \<le> val upper" "val upper \<le> 1"
      by blast+
    from lerp_rounded_bound [OF r h(3,4)] mm [OF h(1)] mm [OF h(2)] h(5)
    show ?thesis by (simp add: min_def max_def split: if_splits)
  qed
qed

theorem interpolateCurve_rounded_near_range_witness:
  "2 \<le> length decimalCurve
   \<and> 0 \<le> round_double (3 / 100) \<and> round_double (3 / 100) \<le> 1
   \<and> 0 \<le> round_double (29 / 100) \<and> round_double (29 / 100) \<le> 1
   \<and> Min (time ` set decimalCurve) \<le> 1 \<and> 1 \<le> Max (time ` set decimalCurve)
   \<and> Min (val ` set decimalCurve) - 1 / 2 ^ 52 \<le> interpolateCurve_rounded (Some decimalCurve) 1
   \<and> interpolateCurve_rounded (Some decimalCurve) 1 \<le> Max (val ` set decimalCurve) + 1 / 2 ^ 52
   \<and> 2 \<le> length zigzag
   \<and> Min (time ` set zigzag) \<le> 1/4 \<and> 1/4 \<le> Max (time ` set zigzag)
   \<and> Min (val ` set zigzag) = 1/4 \<and> Max (val ` set zigzag) = 3/4
   \<and> 1/4 - 1 / 2 ^ 52 \<le> interpolateCurve_rounded (Some zigzag) (1/4)
   \<and> interpolateCurve_rounded (Some zigzag) (1/4) \<le> 3/4 + 1 / 2 ^ 52"
proof -
  have u: "0 \<le> round_double (3 / 100) \<and> round_double (3 / 100) \<le> 1"
    "0 \<le> round_double (29 / 100) \<and> round_double (29 / 100) \<le> 1"
    by (rule round_double_unit; simp)+
  have h: "2 \<le> length decimalCurve"
    "\<forall>pt \<in> set decimalCurve. 0 \<le> time pt \<and> time pt \<le> 1 \<and> 0 \<le> val pt \<and> val pt \<le> 1"
    "(0::real) \<le> 1" "(1::real) \<le> 1"
    "Min (time ` set decimalCurve) \<le> 1" "1 \<le> Max (time ` set decimalCurve)"
    using u by (simp_all add: decimalCurve_def)
  have z: "2 \<le> length zigzag"
    "\<forall>pt \<in> set zigzag. 0 \<le> time pt \<and> time pt \<le> 1 \<and> 0 \<le> val pt \<and> val pt \<le> 1"
    "(0::real) \<le> 1/4" "(1/4::real) \<le> 1"
    "Min (time ` set zigzag) \<le> 1/4" "1/4 \<le> Max (time ` set zigzag)"
    by (simp_all add: zigzag_def)
  have m: "Min (val ` set zigzag) = 1/4" "Max (val ` set zigzag) = 3/4"
    by (simp_all add: zigzag_def)
  from interpolateCurve_rounded_near_range [OF h] interpolateCurve_rounded_near_range [OF z]
    h(1,5,6) z(1,5,6) u m
  show ?thesis by simp
qed

subsection \<open>The frequency mapper on doubles\<close>

lemma mapToFrequency_rounded_eq:
  "mapToFrequency_rounded pow v = round_double (80 * pow 5 (max 0 (min 1 v)))"
  by (simp add: mapToFrequency_rounded_def FREQ_MIN_def FREQ_MAX_def)

lemma grid_step:
  fixes q :: real
  assumes "0 < q" and "a = of_int m * q" and "b = of_int n * q" and "a < b"
  shows "a + q \<le> b"
proof -
  from assms have "of_int m * q < of_int n * q" by simp
  with assms(1) have "m < n" by (simp add: mult_less_cancel_right_pos)
  then have "of_int (m + 1) \<le> (of_int n :: real)" by simp
  then have "of_int (m + 1) * q \<le> of_int n * q" using assms(1) by (intro mult_right_mono) simp_all
  then show ?thesis using assms(2,3) by (simp add: algebra_simps)
qed

lemma binade_point_last: "binade_point k (2 ^ 52) = 2 powi (k + 53)"
proof -
  have "binade_point k (2 ^ 52) = 2 powi 53 * 2 powi k" by (simp add: binade_point_def)
  also have "\<dots> = 2 powi (53 + k)" by (subst power_int_add) simp_all
  finally show ?thesis by (simp add: add.commute)
qed

lemma binade_point_first: "binade_point k 0 = 2 powi (k + 52)"
proof -
  have "binade_point k 0 = 2 powi 52 * 2 powi k" by (simp add: binade_point_def)
  also have "\<dots> = 2 powi (52 + k)" by (subst power_int_add) simp_all
  finally show ?thesis by (simp add: add.commute)
qed

lemma binade_point_double:
  assumes "- 1074 \<le> k" and "j \<le> 2 ^ 52"
  shows "round_double (binade_point k j) = binade_point k j"
proof (cases "j = 2 ^ 52")
  case True
  show ?thesis unfolding True binade_point_last
    using assms(1) by (intro round_double_pow2) simp
next
  case False
  with assms(2) have "j < 2 ^ 52" by simp
  then have "int j < 2 ^ 52" by (metis of_nat_less_iff of_nat_numeral of_nat_power)
  then show ?thesis
    unfolding binade_point_def using assms(1) by (intro round_double_dyadic) simp_all
qed

lemma binade_point_pos: "0 < binade_point k j"
  by (simp add: binade_point_def mult_pos_pos add_pos_nonneg)

lemma binade_point_strict: "binade_point k j < binade_point k (Suc j)"
  by (simp add: binade_point_def mult_strict_right_mono)

lemma binade_point_le_1:
  assumes "k \<le> - 53" and "j \<le> 2 ^ 52"
  shows "binade_point k j \<le> 1"
proof -
  from assms(2) have "int j \<le> 2 ^ 52" by (metis of_nat_le_iff of_nat_numeral of_nat_power)
  then have "(of_int (2 ^ 52 + int j) :: real) \<le> of_int (2 ^ 53)"
    by (simp only: of_int_le_iff) simp
  then have "binade_point k j \<le> of_int (2 ^ 53) * 2 powi k"
    unfolding binade_point_def by (intro mult_right_mono) simp_all
  also have "\<dots> = 2 powi (53 + k)" by (subst power_int_add) simp_all
  also have "\<dots> \<le> 2 powi 0" using assms(1) by (intro power_int_increasing) simp_all
  finally show ?thesis by simp
qed

lemma binade_climb:
  fixes f :: "real \<Rightarrow> real" and q :: real
  assumes k: "- 1074 \<le> k" "k \<le> - 53" and q: "0 < q"
    and grid: "\<And>v. 0 < v \<Longrightarrow> v \<le> 1 \<Longrightarrow> round_double v = v \<Longrightarrow> \<exists>m::int. f v = of_int m * q"
    and strict: "\<And>v w. round_double v = v \<Longrightarrow> round_double w = w \<Longrightarrow> 0 < v \<Longrightarrow> v < w
                  \<Longrightarrow> w \<le> 1 \<Longrightarrow> f v < f w"
  shows "j \<le> 2 ^ 52 \<Longrightarrow> f (binade_point k 0) + of_nat j * q \<le> f (binade_point k j)"
proof (induction j)
  case 0
  then show ?case by simp
next
  case (Suc j)
  then have j: "j \<le> 2 ^ 52" and sj: "Suc j \<le> 2 ^ 52" by simp_all
  let ?v = "binade_point k j" and ?w = "binade_point k (Suc j)"
  have dv: "round_double ?v = ?v" and dw: "round_double ?w = ?w"
    using binade_point_double [OF k(1)] j sj by blast+
  have rv: "0 < ?v" "?v \<le> 1" and rw: "0 < ?w" "?w \<le> 1"
    using binade_point_pos binade_point_le_1 [OF k(2)] j sj by blast+
  from grid [OF rv dv] obtain m where m: "f ?v = of_int m * q" by blast
  from grid [OF rw dw] obtain n where n: "f ?w = of_int n * q" by blast
  have "f ?v < f ?w" using strict [OF dv dw rv(1) binade_point_strict rw(2)] .
  from grid_step [OF q m n this] have "f ?v + q \<le> f ?w" .
  moreover from Suc.IH [OF j] have "f (binade_point k 0) + of_nat j * q \<le> f ?v" .
  ultimately show ?case by (simp add: algebra_simps)
qed

lemma binade_gain:
  fixes f :: "real \<Rightarrow> real"
  assumes k: "- 1074 \<le> k" "k \<le> - 53"
    and grid: "\<And>v. 0 < v \<Longrightarrow> v \<le> 1 \<Longrightarrow> round_double v = v
                \<Longrightarrow> \<exists>m::int. f v = of_int m * 2 powi (- 46)"
    and strict: "\<And>v w. round_double v = v \<Longrightarrow> round_double w = w \<Longrightarrow> 0 < v \<Longrightarrow> v < w
                  \<Longrightarrow> w \<le> 1 \<Longrightarrow> f v < f w"
  shows "f (2 powi (k + 52)) + 64 \<le> f (2 powi (k + 53))"
proof -
  have "f (binade_point k 0) + of_nat (2 ^ 52) * 2 powi (- 46) \<le> f (binade_point k (2 ^ 52))"
    by (rule binade_climb [OF k _ grid strict]) simp_all
  moreover have "of_nat (2 ^ 52) * (2::real) powi (- 46) = 64"
    by (simp add: power_int_minus_divide)
  ultimately show ?thesis by (simp only: binade_point_first binade_point_last)
qed

lemma no_strictly_increasing_doubles:
  fixes f :: "real \<Rightarrow> real"
  assumes f0: "f 0 = 80" and f1: "f 1 = 400"
    and rounded: "\<And>v. \<exists>z. f v = round_double z"
    and strict: "\<And>v w. round_double v = v \<Longrightarrow> round_double w = w \<Longrightarrow> 0 \<le> v \<Longrightarrow> v < w
                  \<Longrightarrow> w \<le> 1 \<Longrightarrow> f v < f w"
  shows False
proof -
  have above: "80 < f v" if "0 < v" "v \<le> 1" "round_double v = v" for v
    using strict [of 0 v] that f0 by simp
  have grid: "\<exists>m::int. f v = of_int m * 2 powi (- 46)"
    if "0 < v" "v \<le> 1" "round_double v = v" for v
  proof -
    from rounded obtain z where z: "f v = round_double z" by blast
    with above [OF that] have "80 \<le> round_double z" by simp
    from round_double_grid_above_80 [OF this] z show ?thesis by simp
  qed
  have strict': "f v < f w"
    if "round_double v = v" "round_double w = w" "0 < v" "v < w" "w \<le> 1" for v w
    using strict [of v w] that by simp
  have g: "f (2 powi (k + 52)) + 64 \<le> f (2 powi (k + 53))" if k: "- 1074 \<le> k" "k \<le> - 53" for k
  proof (rule binade_gain [OF k])
    show "\<exists>m::int. f v = of_int m * 2 powi (- 46)"
      if "0 < v" "v \<le> 1" "round_double v = v" for v
      using grid [OF that] .
    show "f v < f w"
      if "round_double v = v" "round_double w = w" "0 < v" "v < w" "w \<le> 1" for v w
      using strict' [OF that] .
  qed
  from g [of "- 53"] g [of "- 54"] g [of "- 55"] g [of "- 56"] g [of "- 57"]
  have "f (2 powi (- 5)) + 320 \<le> f (2 powi 0)" by simp
  moreover have "80 < f (2 powi (- 5))"
  proof (rule above)
    show "round_double (2 powi (- 5)) = 2 powi (- 5)" by (rule round_double_pow2) simp
    show "0 < (2::real) powi (- 5)" "(2::real) powi (- 5) \<le> 1"
      by (simp_all add: power_int_minus_divide)
  qed
  ultimately show False using f1 by simp
qed

lemma powr_5_tiny:
  fixes x :: real
  assumes "0 < x" and "x \<le> 1 / 2 ^ 56"
  shows "1 \<le> 5 powr x \<and> 5 powr x < 1 + 1 / 2 ^ 53"
proof -
  have l: "ln 5 \<le> (4::real)" using ln_le_minus_one [of "5::real"] by simp
  have l0: "0 < ln (5::real)" by simp
  have "5 powr x = exp (x * ln 5)" by (simp add: powr_def)
  moreover have "x * ln (5::real) \<le> 4 * x" using l assms(1) by (simp add: mult.commute)
  moreover have "0 \<le> x * ln (5::real)" using l0 assms(1) by simp
  ultimately have "5 powr x \<le> exp (4 * x)" "1 \<le> 5 powr x" by simp_all
  moreover have "exp (4 * x) \<le> 1 + 4 * x + (4 * x)\<^sup>2"
    using assms by (intro exp_bound) simp_all
  moreover have "4 * x \<le> 1 / 2 ^ 54" using assms(2) by simp
  moreover have "(4 * x)\<^sup>2 \<le> (1 / 2 ^ 54)\<^sup>2" using assms \<open>4 * x \<le> 1 / 2 ^ 54\<close>
    by (intro power_mono) simp_all
  moreover have "(1::real) / 2 ^ 54 + (1 / 2 ^ 54)\<^sup>2 < 1 / 2 ^ 53"
    by (simp add: power_divide)
  ultimately show ?thesis by linarith
qed

lemma tiny_double:
  "0 < round_double (1 / 10 ^ 17) \<and> round_double (1 / 10 ^ 17) \<le> 1 / 2 ^ 56"
proof -
  have "round_double (2 powi (- 57)) \<le> round_double (1 / 10 ^ 17)"
    by (rule round_double_mono) (simp add: power_int_minus_divide)
  moreover have "round_double (1 / 10 ^ 17) \<le> round_double (2 powi (- 56))"
    by (rule round_double_mono) (simp add: power_int_minus_divide)
  moreover have "round_double (2 powi (- 57)) = 2 powi (- 57)"
    "round_double (2 powi (- 56)) = 2 powi (- 56)"
    by (rule round_double_pow2; simp)+
  ultimately show ?thesis by (simp add: power_int_minus_divide)
qed

lemma pow_correctly_rounded_endpoints:
  "pow_correctly_rounded 5 0 = 1" "pow_correctly_rounded 5 1 = 5"
  by (simp_all add: pow_correctly_rounded_def)

lemma pow_correctly_rounded_mono:
  "x \<le> y \<Longrightarrow> pow_correctly_rounded 5 x \<le> pow_correctly_rounded 5 y"
  unfolding pow_correctly_rounded_def by (intro round_double_mono powr_mono) simp_all

text \<open>
  No platform makes the mapper strictly increasing on the doubles of \<open>[0, 1]\<close> with the
  endpoints 80 and 400: five binades of inputs hold more doubles than there are doubles
  between 80 and 400. With a correctly rounded \<open>Math.pow\<close> the double nearest
  \<open>1 / 10 ^ 17\<close> is mapped to 80, as 0 is.
\<close>

theorem mapToFrequency_rounded_not_strictly_increasing:
  "\<not> (\<exists>pow. mapToFrequency_rounded pow 0 = 80 \<and> mapToFrequency_rounded pow 1 = 400
          \<and> (\<forall>v w. round_double v = v \<and> round_double w = w \<and> 0 \<le> v \<and> v < w \<and> w \<le> 1
                 \<longrightarrow> mapToFrequency_rounded pow v < mapToFrequency_rounded pow w))
   \<and> round_double (round_double (1 / 10 ^ 17)) = round_double (1 / 10 ^ 17)
   \<and> 0 < round_double (1 / 10 ^ 17) \<and> round_double (1 / 10 ^ 17) \<le> 1
   \<and> mapToFrequency_rounded pow_correctly_rounded 0 = 80
   \<and> mapToFrequency_rounded pow_correctly_rounded (round_double (1 / 10 ^ 17)) = 80"
proof -
  have 1: "\<not> (\<exists>pow. mapToFrequency_rounded pow 0 = 80 \<and> mapToFrequency_rounded pow 1 = 400
          \<and> (\<forall>v w. round_double v = v \<and> round_double w = w \<and> 0 \<le> v \<and> v < w \<and> w \<le> 1
                 \<longrightarrow> mapToFrequency_rounded pow v < mapToFrequency_rounded pow w))"
  proof
    assume "\<exists>pow. mapToFrequency_rounded pow 0 = 80 \<and> mapToFrequency_rounded pow 1 = 400
          \<and> (\<forall>v w. round_double v = v \<and> round_double w = w \<and> 0 \<le> v \<and> v < w \<and> w \<le> 1
                 \<longrightarrow> mapToFrequency_rounded pow v < mapToFrequency_rounded pow w)"
    then obtain pow where h: "mapToFrequency_rounded pow 0 = 80"
      "mapToFrequency_rounded pow 1 = 400"
      "\<And>v w. round_double v = v \<Longrightarrow> round_double w = w \<Longrightarrow> 0 \<le> v \<Longrightarrow> v < w \<Longrightarrow> w \<le> 1
             \<Longrightarrow> mapToFrequency_rounded pow v < mapToFrequency_rounded pow w"
      by blast
    show False
    proof (rule no_strictly_increasing_doubles [of "mapToFrequency_rounded pow"])
      show "\<exists>z. mapToFrequency_rounded pow v = round_double z" for v
        by (auto simp add: mapToFrequency_rounded_eq)
    qed (use h in blast)+
  qed
  let ?x = "round_double (1 / 10 ^ 17)"
  from tiny_double have x: "0 < ?x" "?x \<le> 1 / 2 ^ 56" by simp_all
  then have x1: "?x \<le> 1" by simp
  have "round_double (5 powr ?x) = 1"
    using powr_5_tiny [OF x] by (intro round_double_near_1) simp_all
  then have 2: "mapToFrequency_rounded pow_correctly_rounded ?x = 80"
    using x x1 by (simp add: mapToFrequency_rounded_eq pow_correctly_rounded_def)
  have 3: "mapToFrequency_rounded pow_correctly_rounded 0 = 80"
    by (simp add: mapToFrequency_rounded_eq pow_correctly_rounded_def)
  have 4: "round_double ?x = ?x" by (rule round_double_idem)
  from 1 2 3 4 x(1) x1 show ?thesis by blast
qed

text \<open>
  C7. With a \<open>Math.pow\<close> that returns 1 at exponent 0 and 5 at base 5 and exponent 1,
  the frequency mapper sends 0 to 80 and 1 to 400, and equals the rounded product
  \<open>80 \<cdot> pow(5, v)\<close> at the clamped value of every \<open>v\<close>; it is non-decreasing
  wherever \<open>Math.pow\<close> is non-decreasing in its exponent on \<open>[0, 1]\<close>.
\<close>

theorem mapToFrequency_rounded_endpoints_formula_mono:
  assumes "pow 5 0 = 1" and "pow 5 1 = 5"
  shows "mapToFrequency_rounded pow 0 = 80 \<and> mapToFrequency_rounded pow 1 = 400
         \<and> (\<forall>v. mapToFrequency_rounded pow v = round_double (80 * pow 5 (max 0 (min 1 v))))
         \<and> ((\<forall>x y. 0 \<le> x \<and> x \<le> y \<and> y \<le> 1 \<longrightarrow> pow 5 x \<le> pow 5 y)
              \<longrightarrow> (\<forall>v w. v \<le> w \<longrightarrow> mapToFrequency_rounded pow v \<le> mapToFrequency_rounded pow w))"
proof -
  have mono: "mapToFrequency_rounded pow v \<le> mapToFrequency_rounded pow w"
    if p: "\<forall>x y. 0 \<le> x \<and> x \<le> y \<and> y \<le> 1 \<longrightarrow> pow 5 x \<le> pow 5 y" and vw: "v \<le> w" for v w
  proof -
    have "0 \<le> max 0 (min 1 v)" "max 0 (min 1 v) \<le> max 0 (min 1 w)" "max 0 (min 1 w) \<le> 1"
      using vw by simp_all
    with p have "pow 5 (max 0 (min 1 v)) \<le> pow 5 (max 0 (min 1 w))" by blast
    then show ?thesis
      unfolding mapToFrequency_rounded_eq by (intro round_double_mono) simp
  qed
  show ?thesis using assms mono by (simp add: mapToFrequency_rounded_eq)
qed

theorem mapToFrequency_rounded_endpoints_formula_mono_witness:
  "pow_correctly_rounded 5 0 = 1 \<and> pow_correctly_rounded 5 1 = 5
   \<and> mapToFrequency_rounded pow_correctly_rounded 0 = 80
   \<and> mapToFrequency_rounded pow_correctly_rounded 1 = 400
   \<and> mapToFrequency_rounded pow_correctly_rounded (1/4)
       \<le> mapToFrequency_rounded pow_correctly_rounded (1/2)"
proof -
  have m: "\<forall>x y. 0 \<le> x \<and> x \<le> y \<and> y \<le> 1
             \<longrightarrow> pow_correctly_rounded 5 x \<le> pow_correctly_rounded 5 y"
    using pow_correctly_rounded_mono by blast
  have "(1/4::real) \<le> 1/2" by simp
  with mapToFrequency_rounded_endpoints_formula_mono [of pow_correctly_rounded] m
    pow_correctly_rounded_endpoints
  show ?thesis by blast
qed

subsection \<open>The session along a sequence of operations\<close>

lemma session_ok_initial: "session_ok initial"
  by (simp add: session_ok_def initial_def)

lemma pause_session_ok: "session_ok s \<Longrightarrow> session_ok (pause s)"
  by (auto simp add: session_ok_def pause_def split: option.splits)

lemma stop_session_ok: "session_ok s \<Longrightarrow> session_ok (stop s)"
  using pause_session_ok [of s] by (auto simp add: session_ok_def stop_def split: option.splits)

lemma dispose_session_ok: "session_ok s \<Longrightarrow> session_ok (dispose s)"
  using stop_session_ok [of s]
  by (auto simp add: session_ok_def dispose_def stop_def pause_def split: option.splits)

lemma updateAudioParameters_session_ok:
  "session_ok s \<Longrightarrow> session_ok (fst (updateAudioParameters now s))"
  using stop_session_ok [of s]
  by (auto simp add: updateAudioParameters_def onSessionComplete_def Let_def session_ok_def
      split: option.splits jsnum.splits)

lemma init_session_ok: "session_ok s \<Longrightarrow> session_ok (fst (init b s))"
  by (auto simp add: init_def createAudioGraph_def session_ok_def split: backend.splits option.splits)

lemma init_resolved: "snd (init b s) \<Longrightarrow> audioContext (fst (init b s))"
  by (cases "audioContext s"; cases b) (simp_all add: init_def createAudioGraph_def)

lemma init_keeps:
  "isPlaying (fst (init b s)) = isPlaying s" "currentProfile (fst (init b s)) = currentProfile s"
  by (auto simp add: init_def createAudioGraph_def split: backend.splits)

lemma play_session_ok:
  assumes "session_ok s"
  shows "session_ok (fst (play b now s))"
proof -
  let ?s1 = "fst (init b s)"
  let ?s3 = "?s1\<lparr>oscillator := True, isPlaying := True, sessionStartTime := now\<rparr>"
  have ok1: "session_ok ?s1" using assms by (rule init_session_ok)
  have "snd (init b s) \<Longrightarrow> currentProfile s \<noteq> None \<Longrightarrow> session_ok ?s3"
    using ok1 init_resolved [of b s] init_keeps(2) [of b s]
    by (auto simp add: session_ok_def split: option.splits)
  then have "snd (init b s) \<Longrightarrow> currentProfile s \<noteq> None
             \<Longrightarrow> session_ok (fst (updateAudioParameters now ?s3))"
    by (rule updateAudioParameters_session_ok)
  with assms ok1 show ?thesis
    by (simp add: play_def startOscillator_def Let_def case_prod_beta)
qed

lemma setProMode_session_ok: "session_ok s \<Longrightarrow> session_ok (setProMode e s)"
  by (auto simp add: session_ok_def setProMode_def Let_def)

lemma loadProfile_session_ok: "session_ok s \<Longrightarrow> session_ok (loadProfile prof s)"
  by (simp add: session_ok_def loadProfile_def)

lemma recordInteraction_session_ok: "session_ok s \<Longrightarrow> session_ok (recordInteraction now s)"
  by (auto simp add: session_ok_def recordInteraction_def Let_def)

lemma step_session_ok: "session_ok s \<Longrightarrow> session_ok (fst (step x s))"
  by (cases x)
     (simp_all add: init_session_ok loadProfile_session_ok play_session_ok pause_session_ok
        stop_session_ok setProMode_session_ok recordInteraction_session_ok
        updateAudioParameters_session_ok dispose_session_ok)

lemma run_session_ok: "session_ok s \<Longrightarrow> session_ok (fst (run xs s))"
proof (induction xs arbitrary: s)
  case Nil
  then show ?case by simp
next
  case (Cons x xs)
  from Cons.prems have "session_ok (fst (step x s))" by (rule step_session_ok)
  then have "session_ok (fst (run xs (fst (step x s))))" by (rule Cons.IH)
  then show ?case by (simp add: case_prod_beta)
qed

lemma frame_progress_finite:
  assumes "isPlaying s" and "audioContext s" and "sessionStartTime s \<le> now"
    and "remaining (getProgress now s) > 0"
  shows "\<exists>p. progress (getProgress now s) = Finite p \<and> 0 \<le> p \<and> p < 1"
proof -
  let ?e = "now - sessionStartTime s"
  from assms have d: "0 \<le> ?e" "?e < sessionDuration s"
    by (simp_all add: getProgress_def Let_def)
  then have "progress (getProgress now s) = Finite (min 1 (?e / sessionDuration s))"
    using assms(1,2) by (simp add: getProgress_def js_div_def Let_def)
  moreover from d have "0 \<le> ?e / sessionDuration s" "?e / sessionDuration s < 1"
    by simp_all
  ultimately show ?thesis by simp
qed

lemma playing_state_has_gate:
  assumes "s = fst (run xs initial)" and "isPlaying s"
  shows "silenceGate s \<and> oscillator s \<and> currentProfile s \<noteq> None"
  using run_session_ok [OF session_ok_initial, of xs] assms
  by (auto simp add: session_ok_def)

subsection \<open>Silence gating\<close>






subsection \<open>The oscillator targets of a frame\<close>

lemma frame_distracted:
  "snd (updateAudioParameters 2.5 distractedState) =
     [OscillatorFrequency (mapToFrequency 0.49) 0.1,
      FilterFrequency 1478 0.1, FilterQ 2.675 0.1, DensityGain 0.787 0.1,
      OscillatorFrequency (mapToFrequency 0.5 + 0.2) 0.05,
      SilenceGateGain 1 0.05,
      PannerPan (sin 0.125 * 0.1) 0.1]"
  by (simp add: updateAudioParameters_def getProgress_def js_div_def distractedState_def
      gentleProfile_def interpolateCurve_def applyTexture_def applyModulation_def
      applySilenceBlocks_def applySubtlePanning_def MODULATION_TYPES_def Let_def
      FILTER_FREQ_MAX_def FILTER_FREQ_MIN_def FILTER_Q_MIN_def FILTER_Q_MAX_def)

lemma mapToFrequency_049: "mapToFrequency 0.49 \<noteq> mapToFrequency 0.5"
  by (simp add: mapToFrequency_def FREQ_MIN_def FREQ_MAX_def powr_inj)

text \<open>
  C1. In the example session (gentle modulation, frequency offset -0.01) the frame at
  clock reading 2.5 has progress 0.025 and sends two oscillator targets: the base pitch
  with the offset and no deviation, then the pitch without the offset plus the
  deviation 0.2. Neither is the base pitch with the offset plus the deviation.
\<close>

theorem frame_pitch_drops_frequency_offset:
  "let s = fst (run distractedSession initial);
       out = snd (step (Frame 2.5) s);
       claimed = mapToFrequency (interpolateCurve (curve gentleProfile) 0.025 + frequencyOffset s)
                 + sin (2 * pi * 0.1 * 2.5) * 0.02 * (intensity gentleProfile + modulationOffset s) * 20
   in progress (getProgress 2.5 s) = Finite 0.025
      \<and> MODULATION_TYPES (modulationType gentleProfile) = Some \<lparr>lfoFreq = 0.1, lfoDepth = 0.02\<rparr>
      \<and> frequencyOffset s = - 0.01
      \<and> out = [OscillatorFrequency (mapToFrequency 0.49) 0.1,
                FilterFrequency 1478 0.1, FilterQ 2.675 0.1, DensityGain 0.787 0.1,
                OscillatorFrequency (mapToFrequency 0.5 + 0.2) 0.05,
                SilenceGateGain 1 0.05,
                PannerPan (sin 0.125 * 0.1) 0.1]
      \<and> claimed = mapToFrequency 0.49 + 0.2
      \<and> (\<forall>c. OscillatorFrequency claimed c \<notin> set out)"
proof -
  have p: "progress (getProgress 2.5 distractedState) = Finite 0.025"
    by (simp add: getProgress_def js_div_def distractedState_def)
  have m: "MODULATION_TYPES (modulationType gentleProfile) = Some \<lparr>lfoFreq = 0.1, lfoDepth = 0.02\<rparr>"
    by (simp add: MODULATION_TYPES_def gentleProfile_def)
  have f: "frequencyOffset distractedState = - 0.01" "modulationOffset distractedState = 0"
    by (simp_all add: distractedState_def)
  have c: "mapToFrequency (interpolateCurve (curve gentleProfile) 0.025 + - 0.01)
                 + sin (2 * pi * 0.1 * 2.5) * 0.02 * (intensity gentleProfile + 0) * 20
           = mapToFrequency 0.49 + 0.2"
    by (simp add: gentleProfile_def interpolateCurve_def)
  have n: "mapToFrequency 0.49 + 0.2 \<noteq> mapToFrequency 0.49"
    "mapToFrequency 0.49 + 0.2 \<noteq> mapToFrequency 0.5 + 0.2"
    using mapToFrequency_049 by simp_all
  show ?thesis
    unfolding Let_def run_distractedSession step.simps frame_distracted f c
    using p m n by simp
qed

theorem frame_pitch_drops_frequency_offset_witness:
  "OscillatorFrequency (mapToFrequency 0.49 + 0.2) 0.05
     \<notin> set (snd (step (Frame 2.5) (fst (run distractedSession initial))))
   \<and> OscillatorFrequency (mapToFrequency 0.5 + 0.2) 0.05
     \<in> set (snd (step (Frame 2.5) (fst (run distractedSession initial))))"
proof -
  from frame_pitch_drops_frequency_offset
  have "OscillatorFrequency (mapToFrequency 0.49 + 0.2) 0.05
          \<notin> set (snd (step (Frame 2.5) (fst (run distractedSession initial))))"
    unfolding Let_def by metis
  moreover from frame_pitch_drops_frequency_offset
  have "snd (step (Frame 2.5) (fst (run distractedSession initial))) =
          [OscillatorFrequency (mapToFrequency 0.49) 0.1,
           FilterFrequency 1478 0.1, FilterQ 2.675 0.1, DensityGain 0.787 0.1,
           OscillatorFrequency (mapToFrequency 0.5 + 0.2) 0.05,
           SilenceGateGain 1 0.05,
           PannerPan (sin 0.125 * 0.1) 0.1]"
    unfolding Let_def by blast
  ultimately show ?thesis by simp
qed

end
